theory Spec2Isabelle
  imports Complex_Main "HOL-Library.Word"
begin

unbundle bit_operations_syntax

section \<open>JavaScript numbers and typed arrays\<close>

text \<open>
  The repository holds two revisions of one module. The definitions below follow the
  revision in which \<open>decodeIDAT\<close> takes the channel count as a parameter and
  \<open>decode\<close> accepts the color types 2 and 6 (\<open>decodeIDAT\<close>, \<open>chunk_step\<close>,
  \<open>decode\<close>, \<open>mean\<close>). Where the other revision differs, it has definitions of its
  own, with the suffix \<open>_index\<close>: its \<open>decodeIDAT\<close> has the constant 4 in place of
  \<open>channels\<close> and no \<open>reject\<close>, and its \<open>decode\<close> rejects every color type but 6
  when it reads the header, rejects on a palette chunk, and groups the bytes in fours.
  \<open>read32\<close> and the body of \<open>mean\<close> are the same in both.

  The decoder computes with JavaScript numbers. The numbers that arise are integers and
  multiples of 1/8, which doubles represent exactly as long as the arrays involved fit
  into memory, so a finite number is modelled as a rational. \<open>NaN\<close> and
  \<open>undefined\<close> are values of their own, because the code reads arrays out of range
  and computes with the result. The infinities are left out: the only divisors in the
  program are the constant 8, the channel count (3 or 4) and the pixel count, and the
  pixel count divides totals that are 0 whenever it is 0.
\<close>

datatype jsnum = Num rat | NaN | Undefined

type_synonym u8 = "8 word"

definition num_of_u8 :: "u8 \<Rightarrow> jsnum" where
  "num_of_u8 w = Num (of_nat (unat w))"

fun js_add :: "jsnum \<Rightarrow> jsnum \<Rightarrow> jsnum" where
  "js_add (Num x) (Num y) = Num (x + y)"
| "js_add _ _ = NaN"

fun js_sub :: "jsnum \<Rightarrow> jsnum \<Rightarrow> jsnum" where
  "js_sub (Num x) (Num y) = Num (x - y)"
| "js_sub _ _ = NaN"

fun js_mul :: "jsnum \<Rightarrow> jsnum \<Rightarrow> jsnum" where
  "js_mul (Num x) (Num y) = Num (x * y)"
| "js_mul _ _ = NaN"

text \<open>\<open>x / 0\<close> is \<open>NaN\<close> for \<open>x = 0\<close>; a non-zero dividend over 0 does not occur (see above).\<close>

fun js_div :: "jsnum \<Rightarrow> jsnum \<Rightarrow> jsnum" where
  "js_div (Num x) (Num y) = (if y = 0 then NaN else Num (x / y))"
| "js_div _ _ = NaN"

text \<open>Truncation towards zero, as in \<open>ToIntegerOrInfinity\<close> and in the remainder operator.\<close>

definition trunc :: "rat \<Rightarrow> int" where
  "trunc r = (if 0 \<le> r then \<lfloor>r\<rfloor> else \<lceil>r\<rceil>)"

text \<open>The operator \<open>%\<close>: the remainder takes the sign of the dividend.\<close>

fun js_mod :: "jsnum \<Rightarrow> jsnum \<Rightarrow> jsnum" where
  "js_mod (Num x) (Num y) = (if y = 0 then NaN else Num (x - y * of_int (trunc (x / y))))"
| "js_mod _ _ = NaN"

fun js_abs :: "jsnum \<Rightarrow> jsnum" where
  "js_abs (Num x) = Num \<bar>x\<bar>"
| "js_abs _ = NaN"

fun js_floor :: "jsnum \<Rightarrow> jsnum" where
  "js_floor (Num x) = Num (of_int \<lfloor>x\<rfloor>)"
| "js_floor _ = NaN"

text \<open>\<open>Math.round\<close> rounds to the nearest integer, a tie upwards.\<close>

fun js_round :: "jsnum \<Rightarrow> jsnum" where
  "js_round (Num x) = Num (of_int \<lfloor>x + 1 / 2\<rfloor>)"
| "js_round _ = NaN"

text \<open>Comparisons are false as soon as one side is \<open>NaN\<close> or \<open>undefined\<close>.\<close>

fun js_gt :: "jsnum \<Rightarrow> jsnum \<Rightarrow> bool" where
  "js_gt (Num x) (Num y) = (y < x)"
| "js_gt _ _ = False"

fun js_lt :: "jsnum \<Rightarrow> jsnum \<Rightarrow> bool" where
  "js_lt (Num x) (Num y) = (x < y)"
| "js_lt _ _ = False"

text \<open>Loose equality with a number literal.\<close>

fun js_eq :: "jsnum \<Rightarrow> rat \<Rightarrow> bool" where
  "js_eq (Num x) c = (x = c)"
| "js_eq _ c = False"

fun to_integer :: "jsnum \<Rightarrow> int" where
  "to_integer (Num x) = trunc x"
| "to_integer _ = 0"

text \<open>
  \<open>xs[i]\<close>: an index that is not an integer inside the array reads \<open>undefined\<close>.
\<close>

definition js_get :: "jsnum list \<Rightarrow> jsnum \<Rightarrow> jsnum" where
  "js_get xs i =
     (case i of
        Num r \<Rightarrow>
          (if r = of_int \<lfloor>r\<rfloor> \<and> 0 \<le> r \<and> \<lfloor>r\<rfloor> < int (length xs) then xs ! nat \<lfloor>r\<rfloor>
           else Undefined)
      | _ \<Rightarrow> Undefined)"

definition u8_get :: "u8 list \<Rightarrow> jsnum \<Rightarrow> jsnum" where
  "u8_get xs i = js_get (map num_of_u8 xs) i"

text \<open>
  \<open>TypedArray.prototype.subarray(begin, end)\<close>: both bounds are truncated, a negative
  bound counts from the end, and both are clamped to the array.
\<close>

definition rel_index :: "nat \<Rightarrow> int \<Rightarrow> nat" where
  "rel_index n r = (if r < 0 then nat (max (int n + r) 0) else nat (min r (int n)))"

definition subarray :: "u8 list \<Rightarrow> jsnum \<Rightarrow> jsnum \<Rightarrow> u8 list" where
  "subarray xs b e =
     (let from = rel_index (length xs) (to_integer b);
          to = rel_index (length xs) (to_integer e)
      in take (to - from) (drop from xs))"

text \<open>\<open>for (let k = start; k < n; k++) body\<close>, the body acting on the state \<open>s\<close>.\<close>

function for_lt :: "int \<Rightarrow> jsnum \<Rightarrow> (int \<Rightarrow> 's \<Rightarrow> 's) \<Rightarrow> 's \<Rightarrow> 's" where
  "for_lt k n body s =
     (if js_lt (Num (of_int k)) n then for_lt (k + 1) n body (body k s) else s)"
  by pat_completeness auto
termination
proof (relation "measure (\<lambda>(k, n, body, s). case n of Num r \<Rightarrow> nat (\<lceil>r\<rceil> - k) | _ \<Rightarrow> 0)")
  show "wf (measure (\<lambda>(k, n, body, s). case n of Num r \<Rightarrow> nat (\<lceil>r\<rceil> - k) | _ \<Rightarrow> 0))"
    by simp
next
  fix k :: int and n :: jsnum and body :: "int \<Rightarrow> 's \<Rightarrow> 's" and s :: 's
  assume lt: "js_lt (Num (of_int k)) n"
  then obtain r where n: "n = Num r" and kr: "of_int k < r"
    by (cases n) auto
  from kr have "k < \<lceil>r\<rceil>"
    by (simp add: less_ceiling_iff)
  then show "((k + 1, n, body, body k s), (k, n, body, s))
      \<in> measure (\<lambda>(k, n, body, s). case n of Num r \<Rightarrow> nat (\<lceil>r\<rceil> - k) | _ \<Rightarrow> 0)"
    by (simp add: n)
qed

declare for_lt.simps [simp del]

section \<open>read32\<close>

text \<open>
  \<open>(arr[int++] << 24) | (arr[int++] << 16) | (arr[int++] << 08) | arr[int++]\<close>:
  each operand is converted with \<open>ToInt32\<close> (\<open>undefined\<close> gives 0), and the result of
  \<open><<\<close> and \<open>|\<close> is a signed 32-bit integer.
\<close>

fun to_int32 :: "jsnum \<Rightarrow> 32 word" where
  "to_int32 (Num x) = word_of_int (trunc x)"
| "to_int32 _ = 0"

definition read32 :: "u8 list \<Rightarrow> int \<Rightarrow> int" where
  "read32 arr i =
     sint (push_bit 24 (to_int32 (u8_get arr (Num (of_int i))))
        OR push_bit 16 (to_int32 (u8_get arr (Num (of_int (i + 1)))))
        OR push_bit 8 (to_int32 (u8_get arr (Num (of_int (i + 2)))))
        OR to_int32 (u8_get arr (Num (of_int (i + 3)))))"

section \<open>decodeIDAT: scanline reconstruction\<close>

text \<open>What \<open>reject\<close> is called with.\<close>

datatype reject =
    DownloadFailed
  | NotPng
  | Interlaced
  | PaletteUnsupported
  | UnsupportedColorType jsnum
  | UnsupportedFilter jsnum int

text \<open>
  The neighbours of byte \<open>k\<close> of row \<open>j\<close>, read from the bytes reconstructed so far:
  \<^verbatim>\<open>a = k>channels-1 ? bytes[start+k-channels] : 0\<close>,
  \<^verbatim>\<open>b = j ? bytes[start+k-length] : 0\<close>,
  \<^verbatim>\<open>c = k>channels-1&&j ? bytes[start+k-length-channels] : 0\<close>.
\<close>

definition left_a :: "jsnum list \<Rightarrow> jsnum \<Rightarrow> jsnum \<Rightarrow> int \<Rightarrow> jsnum" where
  "left_a bytes start channels k =
     (if js_gt (Num (of_int k)) (js_sub channels (Num 1))
      then js_get bytes (js_sub (js_add start (Num (of_int k))) channels) else Num 0)"

definition up_b :: "jsnum list \<Rightarrow> jsnum \<Rightarrow> jsnum \<Rightarrow> int \<Rightarrow> int \<Rightarrow> jsnum" where
  "up_b bytes start len j k =
     (if j \<noteq> 0 then js_get bytes (js_sub (js_add start (Num (of_int k))) len) else Num 0)"

definition upleft_c :: "jsnum list \<Rightarrow> jsnum \<Rightarrow> jsnum \<Rightarrow> jsnum \<Rightarrow> int \<Rightarrow> int \<Rightarrow> jsnum" where
  "upleft_c bytes start len channels j k =
     (if js_gt (Num (of_int k)) (js_sub channels (Num 1)) \<and> j \<noteq> 0
      then js_get bytes (js_sub (js_sub (js_add start (Num (of_int k))) len) channels)
      else Num 0)"

text \<open>The bodies of the five inner loops; each pushes one value.\<close>

definition none_body :: "u8 list \<Rightarrow> int \<Rightarrow> jsnum list \<Rightarrow> jsnum list" where
  "none_body scanline k bytes =
     bytes @ [js_mod (u8_get scanline (Num (of_int k))) (Num 256)]"

definition sub_body :: "u8 list \<Rightarrow> jsnum \<Rightarrow> jsnum \<Rightarrow> int \<Rightarrow> jsnum list \<Rightarrow> jsnum list" where
  "sub_body scanline start channels k bytes =
     (let a = left_a bytes start channels k
      in bytes @ [js_mod (js_add a (u8_get scanline (Num (of_int k)))) (Num 256)])"

definition up_body :: "u8 list \<Rightarrow> jsnum \<Rightarrow> jsnum \<Rightarrow> int \<Rightarrow> int \<Rightarrow> jsnum list \<Rightarrow> jsnum list" where
  "up_body scanline start len j k bytes =
     (let b = up_b bytes start len j k
      in bytes @ [js_mod (js_add b (u8_get scanline (Num (of_int k)))) (Num 256)])"

definition avg_body ::
  "u8 list \<Rightarrow> jsnum \<Rightarrow> jsnum \<Rightarrow> jsnum \<Rightarrow> int \<Rightarrow> int \<Rightarrow> jsnum list \<Rightarrow> jsnum list" where
  "avg_body scanline start len channels j k bytes =
     (let a = left_a bytes start channels k;
          b = up_b bytes start len j k;
          avg = js_floor (js_div (js_add a b) (Num 2))
      in bytes @ [js_mod (js_add avg (u8_get scanline (Num (of_int k)))) (Num 256)])"

definition paeth_body ::
  "u8 list \<Rightarrow> jsnum \<Rightarrow> jsnum \<Rightarrow> jsnum \<Rightarrow> int \<Rightarrow> int \<Rightarrow> jsnum list \<Rightarrow> jsnum list" where
  "paeth_body scanline start len channels j k bytes =
     (let a = left_a bytes start channels k;
          b = up_b bytes start len j k;
          c = upleft_c bytes start len channels j k;
          p = js_sub (js_add a b) c;
          x = u8_get scanline (Num (of_int k))
      in if js_gt (js_abs (js_sub p a)) (js_abs (js_sub p b))
         then (if js_gt (js_abs (js_sub p b)) (js_abs (js_sub p c))
               then bytes @ [js_mod (js_add c x) (Num 256)]
               else bytes @ [js_mod (js_add b x) (Num 256)])
         else (if js_gt (js_abs (js_sub p a)) (js_abs (js_sub p c))
               then bytes @ [js_mod (js_add c x) (Num 256)]
               else bytes @ [js_mod (js_add a x) (Num 256)]))"

text \<open>
  One turn of the outer loop: cut the scanline out of the stream and dispatch on the
  filter selector \<^verbatim>\<open>data[j*(length+1)]\<close>. The default arm calls \<open>reject\<close> and returns.
\<close>

definition scanline_step ::
  "u8 list \<Rightarrow> jsnum \<Rightarrow> jsnum \<Rightarrow> int \<Rightarrow> jsnum list \<Rightarrow> reject + jsnum list" where
  "scanline_step data len channels j bytes =
     (let scanline = subarray data
            (js_add (js_mul (Num (of_int j)) (js_add len (Num 1))) (Num 1))
            (js_mul (Num (of_int (j + 1))) (js_add len (Num 1)));
          start = js_mul (Num (of_int j)) len;
          selector = u8_get data (js_mul (Num (of_int j)) (js_add len (Num 1)))
      in if selector = Num 0 then Inr (for_lt 0 len (none_body scanline) bytes)
         else if selector = Num 1 then Inr (for_lt 0 len (sub_body scanline start channels) bytes)
         else if selector = Num 2 then Inr (for_lt 0 len (up_body scanline start len j) bytes)
         else if selector = Num 3
           then Inr (for_lt 0 len (avg_body scanline start len channels j) bytes)
         else if selector = Num 4
           then Inr (for_lt 0 len (paeth_body scanline start len channels j) bytes)
         else Inl (UnsupportedFilter selector j))"

function decodeIDAT_rows ::
  "u8 list \<Rightarrow> jsnum \<Rightarrow> jsnum \<Rightarrow> jsnum \<Rightarrow> int \<Rightarrow> jsnum list \<Rightarrow> reject + jsnum list" where
  "decodeIDAT_rows data len height channels j bytes =
     (if js_lt (Num (of_int j)) height
      then (case scanline_step data len channels j bytes of
              Inl e \<Rightarrow> Inl e
            | Inr bytes' \<Rightarrow> decodeIDAT_rows data len height channels (j + 1) bytes')
      else Inr bytes)"
  by pat_completeness auto
termination
proof (relation
    "measure (\<lambda>(data, len, height, channels, j, bytes).
       case height of Num r \<Rightarrow> nat (\<lceil>r\<rceil> - j) | _ \<Rightarrow> 0)")
  show "wf (measure (\<lambda>(data, len, height, channels, j, bytes).
       case height of Num r \<Rightarrow> nat (\<lceil>r\<rceil> - j) | _ \<Rightarrow> 0))"
    by simp
next
  fix data :: "u8 list" and len height channels :: jsnum and j :: int
    and bytes x2 :: "jsnum list"
  assume "js_lt (Num (of_int j)) height"
  then obtain r where h: "height = Num r" and jr: "of_int j < r"
    by (cases height) auto
  from jr have "j < \<lceil>r\<rceil>"
    by (simp add: less_ceiling_iff)
  then show "((data, len, height, channels, j + 1, x2), (data, len, height, channels, j, bytes))
      \<in> measure (\<lambda>(data, len, height, channels, j, bytes).
           case height of Num r \<Rightarrow> nat (\<lceil>r\<rceil> - j) | _ \<Rightarrow> 0)"
    by (simp add: h)
qed

declare decodeIDAT_rows.simps [simp del]

text \<open>
  \<open>decodeIDAT(data, length, height, channels, reject)\<close>. \<open>Inl e\<close>: \<open>reject(e)\<close> was
  called and the empty array returned; \<open>Inr bytes\<close>: \<open>bytes\<close> returned.
\<close>

definition decodeIDAT :: "u8 list \<Rightarrow> jsnum \<Rightarrow> jsnum \<Rightarrow> jsnum \<Rightarrow> reject + jsnum list" where
  "decodeIDAT data len height channels = decodeIDAT_rows data len height channels 0 []"

text \<open>
  \<open>decodeIDAT(data, length, height)\<close> of the other revision. Its text is the text
  above with the literals 3 and 4 where this one has \<open>channels-1\<close> and \<open>channels\<close>,
  but for the default arm: \<open>reject\<close> is not a parameter there and is declared nowhere
  in the module, so the call throws a \<open>ReferenceError\<close>.
\<close>

datatype thrown = ReferenceError

definition decodeIDAT_index :: "u8 list \<Rightarrow> jsnum \<Rightarrow> jsnum \<Rightarrow> thrown + jsnum list" where
  "decodeIDAT_index data len height =
     (case decodeIDAT data len height (Num 4) of
        Inl e \<Rightarrow> Inl ReferenceError
      | Inr bytes \<Rightarrow> Inr bytes)"

section \<open>Notions used to state the properties\<close>

text \<open>
  The value that one turn of an inner loop pushes, as a function of the bytes pushed so
  far; the five loop bodies are shown below to push exactly these values.
\<close>

definition push :: "(int \<Rightarrow> 'a list \<Rightarrow> 'a) \<Rightarrow> int \<Rightarrow> 'a list \<Rightarrow> 'a list" where
  "push g k bs = bs @ [g k bs]"

definition row_scanline :: "u8 list \<Rightarrow> jsnum \<Rightarrow> int \<Rightarrow> u8 list" where
  "row_scanline data len j = subarray data
            (js_add (js_mul (Num (of_int j)) (js_add len (Num 1))) (Num 1))
            (js_mul (Num (of_int (j + 1))) (js_add len (Num 1)))"

definition row_selector :: "u8 list \<Rightarrow> jsnum \<Rightarrow> int \<Rightarrow> jsnum" where
  "row_selector data len j = u8_get data (js_mul (Num (of_int j)) (js_add len (Num 1)))"

definition paeth_pick :: "jsnum \<Rightarrow> jsnum \<Rightarrow> jsnum \<Rightarrow> jsnum" where
  "paeth_pick a b c =
     (let p = js_sub (js_add a b) c
      in if js_gt (js_abs (js_sub p a)) (js_abs (js_sub p b))
         then (if js_gt (js_abs (js_sub p b)) (js_abs (js_sub p c)) then c else b)
         else (if js_gt (js_abs (js_sub p a)) (js_abs (js_sub p c)) then c else a))"

definition filter_core :: "jsnum \<Rightarrow> jsnum \<Rightarrow> jsnum \<Rightarrow> jsnum \<Rightarrow> jsnum \<Rightarrow> jsnum" where
  "filter_core sel x a b c =
     (if sel = Num 0 then js_mod x (Num 256)
      else if sel = Num 1 then js_mod (js_add a x) (Num 256)
      else if sel = Num 2 then js_mod (js_add b x) (Num 256)
      else if sel = Num 3 then js_mod (js_add (js_floor (js_div (js_add a b) (Num 2))) x) (Num 256)
      else js_mod (js_add (paeth_pick a b c) x) (Num 256))"

definition filter_value ::
  "jsnum \<Rightarrow> u8 list \<Rightarrow> jsnum \<Rightarrow> jsnum \<Rightarrow> jsnum \<Rightarrow> int \<Rightarrow> int \<Rightarrow> jsnum list \<Rightarrow> jsnum" where
  "filter_value sel scanline start len channels j k bytes =
     filter_core sel (u8_get scanline (Num (of_int k))) (left_a bytes start channels k)
       (up_b bytes start len j k) (upleft_c bytes start len channels j k)"

definition row_value :: "u8 list \<Rightarrow> jsnum \<Rightarrow> jsnum \<Rightarrow> int \<Rightarrow> int \<Rightarrow> jsnum list \<Rightarrow> jsnum" where
  "row_value data len channels j =
     filter_value (row_selector data len j) (row_scanline data len j)
       (js_mul (Num (of_int j)) len) len channels j"

definition valid_selector :: "jsnum \<Rightarrow> bool" where
  "valid_selector sel \<longleftrightarrow> sel = Num 0 \<or> sel = Num 1 \<or> sel = Num 2 \<or> sel = Num 3 \<or> sel = Num 4"

text \<open>The selector byte of row \<open>i\<close> is in the stream and is one of 0 to 4.\<close>

definition supported_row :: "u8 list \<Rightarrow> nat \<Rightarrow> nat \<Rightarrow> bool" where
  "supported_row data L i \<longleftrightarrow> i * (L + 1) < length data \<and> unat (data ! (i * (L + 1))) \<le> 4"

text \<open>A byte as a number, the byte a number holds, and the numbers that are bytes.\<close>

definition byte_num :: "nat \<Rightarrow> jsnum" where
  "byte_num n = Num (of_nat n)"

definition byte_val :: "jsnum \<Rightarrow> nat" where
  "byte_val v = (case v of Num r \<Rightarrow> nat \<lfloor>r\<rfloor> | _ \<Rightarrow> 0)"

definition is_byte :: "jsnum \<Rightarrow> bool" where
  "is_byte v \<longleftrightarrow> (\<exists>n<256. v = byte_num n)"

text \<open>
  The choice of the Paeth filter in the words of the specification: \<open>a\<close> if
  \<open>pa \<le> pb\<close> and \<open>pa \<le> pc\<close>, else \<open>b\<close> if \<open>pb \<le> pc\<close>, else \<open>c\<close>.
\<close>

definition paeth_spec :: "int \<Rightarrow> int \<Rightarrow> int \<Rightarrow> int" where
  "paeth_spec a b c =
     (let p = a + b - c; pa = \<bar>p - a\<bar>; pb = \<bar>p - b\<bar>; pc = \<bar>p - c\<bar>
      in if pa \<le> pb \<and> pa \<le> pc then a else if pb \<le> pc then b else c)"

section \<open>decode: the chunk walk\<close>

text \<open>
  The image record. A field that has not been assigned reads \<open>undefined\<close>;
  \<open>data\<close> is assigned only when the promise is resolved.
\<close>

record imageData =
  width :: jsnum
  height :: jsnum
  depth :: jsnum
  color :: jsnum
  channels :: jsnum
  data :: "jsnum list list"

definition empty_image :: imageData where
  "empty_image = \<lparr>width = Undefined, height = Undefined, depth = Undefined, color = Undefined,
     channels = Undefined, data = []\<rparr>"

text \<open>
  How a promise ends: resolved, rejected, or never settled (the executor threw before
  either callback was called).
\<close>

datatype 'a outcome = Resolved 'a | Rejected reject | Pending

text \<open>
  The variables of the executor of \<open>decode\<close>: the cursor \<open>i\<close>, \<open>imageData\<close>,
  \<open>base\<close>, \<open>pixels\<close>, and the reason of the first call of \<open>reject\<close>, if any
  (a promise keeps its first settlement).
\<close>

record walker =
  cursor :: int
  image :: imageData
  base :: "u8 list"
  pixels :: "jsnum list"
  settled :: "reject option"

definition call_reject :: "reject \<Rightarrow> walker \<Rightarrow> walker" where
  "call_reject e st = (case settled st of None \<Rightarrow> st\<lparr>settled := Some e\<rparr> | Some _ \<Rightarrow> st)"

text \<open>
  One turn of the \<open>while\<close> loop ends at its bottom (\<open>Continue\<close>), in a \<open>return\<close>
  statement (\<open>Return\<close>), or in an exception (\<open>Throw\<close>).
\<close>

datatype step = Continue walker | Return walker | Throw walker

definition IHDR :: "u8 list" where "IHDR = [73, 72, 68, 82]"

definition PLTE :: "u8 list" where "PLTE = [80, 76, 84, 69]"

definition IDAT :: "u8 list" where "IDAT = [73, 68, 65, 84]"

definition IEND :: "u8 list" where "IEND = [73, 69, 78, 68]"

text \<open>
  The body of the loop. Two things come from outside the repository. \<open>inflate\<close>
  stands for \<open>pako.inflate\<close>: \<open>None\<close> is an exception. \<open>max_args\<close> is the
  largest number of arguments the JavaScript engine takes in one call: the statement
  \<^verbatim>\<open>base.push(...png.subarray(i+8, i+8+length))\<close> passes every byte of the payload as
  an argument and throws a \<open>RangeError\<close> when there are more (the four bytes of a tag
  are within the limit of every engine).
\<close>

definition chunk_step ::
  "int \<Rightarrow> (u8 list \<Rightarrow> u8 list option) \<Rightarrow> u8 list \<Rightarrow> walker \<Rightarrow> step" where
  "chunk_step max_args inflate png st =
     (let i = cursor st;
          len = read32 png i;
          tag = subarray png (Num (of_int (i + 4))) (Num (of_int (i + 8)));
          advance = (\<lambda>s. Continue (s\<lparr>cursor := i + (len + 12)\<rparr>))
      in if tag = IHDR then
           (let img = \<lparr>width = Num (of_int (read32 png (i + 8))),
                       height = Num (of_int (read32 png (i + 12))),
                       depth = u8_get png (Num (of_int (i + 16))),
                       color = u8_get png (Num (of_int (i + 17))),
                       channels = Undefined, data = []\<rparr>;
                st1 = st\<lparr>image := img\<rparr>
            in if js_eq (u8_get png (Num (of_int (i + 20)))) 1
                 then Return (call_reject Interlaced st1)
               else if js_eq (color img) 6
                 then advance (st1\<lparr>image := img\<lparr>channels := Num 4\<rparr>\<rparr>)
               else if js_eq (color img) 2
                 then advance (st1\<lparr>image := img\<lparr>channels := Num 3\<rparr>\<rparr>)
               else if js_eq (color img) 3
                 then advance (call_reject PaletteUnsupported st1)
               else Return (call_reject (UnsupportedColorType (color img)) st1))
         else if tag = PLTE then advance st
         else if tag = IDAT then
           (let payload = subarray png (Num (of_int (i + 8))) (Num (of_int (i + 8 + len)))
            in if max_args < int (length payload) then Throw st
               else advance (st\<lparr>base := base st @ payload\<rparr>))
         else if tag = IEND then
           (case inflate (base st) of
              None \<Rightarrow> Throw st
            | Some baseData \<Rightarrow>
                (case decodeIDAT baseData
                        (js_div (js_mul (js_mul (width (image st)) (depth (image st)))
                           (channels (image st))) (Num 8))
                        (height (image st)) (channels (image st)) of
                   Inl e \<Rightarrow> advance (call_reject e (st\<lparr>pixels := []\<rparr>))
                 | Inr bytes \<Rightarrow> advance (st\<lparr>pixels := bytes\<rparr>)))
         else advance st)"

text \<open>
  \<open>while (i < png["byteLength"])\<close>. A length field is a signed number, so the cursor can
  stand still or move backwards and the loop need not end: \<open>None\<close> is a walk that
  never ends.
\<close>

partial_function (option) chunk_loop ::
  "int \<Rightarrow> (u8 list \<Rightarrow> u8 list option) \<Rightarrow> u8 list \<Rightarrow> walker \<Rightarrow> step option" where
  "chunk_loop max_args inflate png st =
     (if cursor st < int (length png)
      then (case chunk_step max_args inflate png st of
              Continue st' \<Rightarrow> chunk_loop max_args inflate png st'
            | Return st' \<Rightarrow> Some (Return st')
            | Throw st' \<Rightarrow> Some (Throw st'))
      else Some (Continue st))"

declare chunk_loop.simps [code]

text \<open>
  The grouping of the reconstructed bytes after the loop:
  \<^verbatim>\<open>for (let i = 0; i < pixels.length/imageData.channels; i++) {
    pixels2[i] = []
    for (let j = 0; j < imageData.channels; j++)
      pixels2[i][j] = pixels[i*imageData.channels+j] }\<close>
\<close>

definition group_pixels :: "jsnum list \<Rightarrow> jsnum \<Rightarrow> jsnum list list" where
  "group_pixels pxs chans =
     for_lt 0 (js_div (Num (of_nat (length pxs))) chans)
       (\<lambda>i pixels2. pixels2 @
          [for_lt 0 chans
             (\<lambda>j row. row @ [js_get pxs (js_add (js_mul (Num (of_int i)) chans) (Num (of_int j)))])
             []])
       []"

text \<open>\<open>imageData.data = pixels2; respond(imageData)\<close>: without effect after a \<open>reject\<close>.\<close>

definition respond :: "walker \<Rightarrow> imageData outcome" where
  "respond st =
     (case settled st of
        None \<Rightarrow> Resolved ((image st)\<lparr>data := group_pixels (pixels st) (channels (image st))\<rparr>)
      | Some e \<Rightarrow> Rejected e)"

definition abandoned :: "walker \<Rightarrow> imageData outcome" where
  "abandoned st = (case settled st of None \<Rightarrow> Pending | Some e \<Rightarrow> Rejected e)"

fun settle :: "step \<Rightarrow> imageData outcome" where
  "settle (Continue st) = respond st"
| "settle (Return st) = abandoned st"
| "settle (Throw st) = abandoned st"

definition signature :: "u8 list" where
  "signature = [137, 80, 78, 71, 13, 10, 26, 10]"

definition initial_walker :: walker where
  "initial_walker = \<lparr>cursor = 8, image = empty_image, base = [], pixels = [], settled = None\<rparr>"

text \<open>
  \<open>decode(url)\<close>, given what \<open>download(url)\<close> delivered: \<open>None\<close> for a failed
  download, otherwise the bytes of the file. The result \<open>None\<close> is a call whose
  chunk walk never ends.
\<close>

definition decode ::
  "int \<Rightarrow> (u8 list \<Rightarrow> u8 list option) \<Rightarrow> u8 list option \<Rightarrow> imageData outcome option" where
  "decode max_args inflate download =
     (case download of
        None \<Rightarrow> Some (Rejected DownloadFailed)
      | Some png \<Rightarrow>
          if subarray png (Num 0) (Num 8) \<noteq> signature then Some (Rejected NotPng)
          else map_option settle (chunk_loop max_args inflate png initial_walker))"

section \<open>mean\<close>

text \<open>\<open>xs[i]\<close> and \<open>xs[i] = v\<close> on an ordinary array: a write past the end extends it.\<close>

definition arr_get :: "jsnum list \<Rightarrow> nat \<Rightarrow> jsnum" where
  "arr_get xs i = (if i < length xs then xs ! i else Undefined)"

definition arr_set :: "jsnum list \<Rightarrow> nat \<Rightarrow> jsnum \<Rightarrow> jsnum list" where
  "arr_set xs i v =
     (if i < length xs then xs[i := v] else xs @ replicate (i - length xs) Undefined @ [v])"

text \<open>\<^verbatim>\<open>for (let i in pixel) totals[i] += pixel[i]\<close>\<close>

definition add_pixel :: "jsnum list \<Rightarrow> jsnum list \<Rightarrow> jsnum list" where
  "add_pixel pixel totals =
     fold (\<lambda>i t. arr_set t i (js_add (arr_get t i) (arr_get pixel i))) [0..<length pixel] totals"

text \<open>
  The body of \<open>mean\<close> after \<open>await decode(url)\<close>:
  \<^verbatim>\<open>totals[i] = Math.round(totals[i]/image.data.length)\<close> for \<open>i\<close> from 0 to 3.
\<close>

definition mean_of :: "imageData \<Rightarrow> jsnum list" where
  "mean_of img =
     (let totals = fold add_pixel (data img) [Num 0, Num 0, Num 0, Num 0]
      in for_lt 0 (Num 4)
           (\<lambda>i t. arr_set t (nat i)
              (js_round (js_div (arr_get t (nat i)) (Num (of_nat (length (data img)))))))
           totals)"

text \<open>\<open>mean(url)\<close>: a rejection of \<open>decode\<close> is thrown by \<open>await\<close> and rejects \<open>mean\<close>.\<close>

fun mean_outcome :: "imageData outcome \<Rightarrow> jsnum list outcome" where
  "mean_outcome (Resolved img) = Resolved (mean_of img)"
| "mean_outcome (Rejected e) = Rejected e"
| "mean_outcome Pending = Pending"

definition mean ::
  "int \<Rightarrow> (u8 list \<Rightarrow> u8 list option) \<Rightarrow> u8 list option \<Rightarrow> jsnum list outcome option" where
  "mean max_args inflate download = map_option mean_outcome (decode max_args inflate download)"

section \<open>decode in the other revision\<close>

text \<open>
  The body of the loop in the revision without the channel count. The header chunk is
  rejected for every color type but 6, before the interlace byte is looked at, and the
  reason does not name the color type; a palette chunk calls \<open>reject\<close>, and the walk
  goes on; the stride is computed with the constant 4; an exception of \<open>decodeIDAT\<close>
  leaves the executor.
\<close>

definition chunk_step_index ::
  "int \<Rightarrow> (u8 list \<Rightarrow> u8 list option) \<Rightarrow> u8 list \<Rightarrow> walker \<Rightarrow> step" where
  "chunk_step_index max_args inflate png st =
     (let i = cursor st;
          len = read32 png i;
          tag = subarray png (Num (of_int (i + 4))) (Num (of_int (i + 8)));
          advance = (\<lambda>s. Continue (s\<lparr>cursor := i + (len + 12)\<rparr>))
      in if tag = IHDR then
           (let img = \<lparr>width = Num (of_int (read32 png (i + 8))),
                       height = Num (of_int (read32 png (i + 12))),
                       depth = u8_get png (Num (of_int (i + 16))),
                       color = u8_get png (Num (of_int (i + 17))),
                       channels = Undefined, data = []\<rparr>;
                st1 = st\<lparr>image := img\<rparr>
            in if \<not> js_eq (color img) 6
                 then Return (call_reject (UnsupportedColorType (color img)) st1)
               else if js_eq (u8_get png (Num (of_int (i + 20)))) 1
                 then Return (call_reject Interlaced st1)
               else advance st1)
         else if tag = PLTE then advance (call_reject PaletteUnsupported st)
         else if tag = IDAT then
           (let payload = subarray png (Num (of_int (i + 8))) (Num (of_int (i + 8 + len)))
            in if max_args < int (length payload) then Throw st
               else advance (st\<lparr>base := base st @ payload\<rparr>))
         else if tag = IEND then
           (case inflate (base st) of
              None \<Rightarrow> Throw st
            | Some baseData \<Rightarrow>
                (case decodeIDAT_index baseData
                        (js_div (js_mul (js_mul (width (image st)) (depth (image st))) (Num 4))
                           (Num 8))
                        (height (image st)) of
                   Inl e \<Rightarrow> Throw st
                 | Inr bytes \<Rightarrow> advance (st\<lparr>pixels := bytes\<rparr>)))
         else advance st)"

partial_function (option) chunk_loop_index ::
  "int \<Rightarrow> (u8 list \<Rightarrow> u8 list option) \<Rightarrow> u8 list \<Rightarrow> walker \<Rightarrow> step option" where
  "chunk_loop_index max_args inflate png st =
     (if cursor st < int (length png)
      then (case chunk_step_index max_args inflate png st of
              Continue st' \<Rightarrow> chunk_loop_index max_args inflate png st'
            | Return st' \<Rightarrow> Some (Return st')
            | Throw st' \<Rightarrow> Some (Throw st'))
      else Some (Continue st))"

declare chunk_loop_index.simps [code]

text \<open>
  The grouping in that revision overwrites \<open>pixels\<close> in place and then cuts it:
  \<^verbatim>\<open>for (let i = 0; i < pixels.length/4; i++)
    pixels[i] = [pixels[i*4+0], pixels[i*4+1], pixels[i*4+2], pixels[i*4+3]];
  pixels = pixels.slice(0, pixels.length/4);\<close>
  Turn \<open>i\<close> reads the entries from \<open>4 * i\<close> on, which no earlier turn has overwritten,
  so the tuples are built from the reconstructed bytes; \<open>slice\<close> truncates its bound
  and keeps that many of the tuples.
\<close>

definition group_pixels_index :: "jsnum list \<Rightarrow> jsnum list list" where
  "group_pixels_index pxs =
     take (nat (to_integer (js_div (Num (of_nat (length pxs))) (Num 4))))
       (for_lt 0 (js_div (Num (of_nat (length pxs))) (Num 4))
          (\<lambda>i tuples. tuples @
             [[js_get pxs (js_add (js_mul (Num (of_int i)) (Num 4)) (Num 0)),
               js_get pxs (js_add (js_mul (Num (of_int i)) (Num 4)) (Num 1)),
               js_get pxs (js_add (js_mul (Num (of_int i)) (Num 4)) (Num 2)),
               js_get pxs (js_add (js_mul (Num (of_int i)) (Num 4)) (Num 3))]])
          [])"

definition respond_index :: "walker \<Rightarrow> imageData outcome" where
  "respond_index st =
     (case settled st of
        None \<Rightarrow> Resolved ((image st)\<lparr>data := group_pixels_index (pixels st)\<rparr>)
      | Some e \<Rightarrow> Rejected e)"

fun settle_index :: "step \<Rightarrow> imageData outcome" where
  "settle_index (Continue st) = respond_index st"
| "settle_index (Return st) = abandoned st"
| "settle_index (Throw st) = abandoned st"

definition decode_index ::
  "int \<Rightarrow> (u8 list \<Rightarrow> u8 list option) \<Rightarrow> u8 list option \<Rightarrow> imageData outcome option" where
  "decode_index max_args inflate download =
     (case download of
        None \<Rightarrow> Some (Rejected DownloadFailed)
      | Some png \<Rightarrow>
          if subarray png (Num 0) (Num 8) \<noteq> signature then Some (Rejected NotPng)
          else map_option settle_index (chunk_loop_index max_args inflate png initial_walker))"

text \<open>\<open>mean\<close> has the same text in that revision and awaits its \<open>decode\<close>.\<close>

definition mean_index ::
  "int \<Rightarrow> (u8 list \<Rightarrow> u8 list option) \<Rightarrow> u8 list option \<Rightarrow> jsnum list outcome option" where
  "mean_index max_args inflate download =
     map_option mean_outcome (decode_index max_args inflate download)"

section \<open>Notions used to state the properties of decode and mean\<close>

text \<open>
  The number a pixel entry holds (0 for an entry that is not a number), the sum of one
  channel over a sequence of pixels (a pixel without that channel counts 0), and a pixel
  of at most four entries that are all numbers.
\<close>

definition num_val :: "jsnum \<Rightarrow> rat" where
  "num_val v = (case v of Num r \<Rightarrow> r | _ \<Rightarrow> 0)"

definition channel_sum :: "jsnum list list \<Rightarrow> nat \<Rightarrow> rat" where
  "channel_sum ps c = sum_list (map (\<lambda>p. num_val (arr_get p c)) ps)"

definition numeric_pixel :: "jsnum list \<Rightarrow> bool" where
  "numeric_pixel p \<longleftrightarrow> length p \<le> 4 \<and> (\<forall>v \<in> set p. \<exists>r. v = Num r)"

text \<open>
  A predicate on the state of the walk that every completed turn of the loop preserves,
  and a result of the walk that was reached from a state with that predicate: either the
  loop ran out of chunks there, or the turn taken there ended in \<open>return\<close> or in an
  exception.
\<close>

definition preserved ::
  "(walker \<Rightarrow> bool) \<Rightarrow> int \<Rightarrow> (u8 list \<Rightarrow> u8 list option) \<Rightarrow> u8 list \<Rightarrow> bool" where
  "preserved I max_args inflate png \<longleftrightarrow>
     (\<forall>s s'. I s \<longrightarrow> cursor s < int (length png) \<longrightarrow>
        chunk_step max_args inflate png s = Continue s' \<longrightarrow> I s')"

definition ends_in ::
  "(walker \<Rightarrow> bool) \<Rightarrow> int \<Rightarrow> (u8 list \<Rightarrow> u8 list option) \<Rightarrow> u8 list \<Rightarrow> step \<Rightarrow> bool" where
  "ends_in I max_args inflate png r \<longleftrightarrow>
     (\<exists>s. I s \<and> ((r = Continue s \<and> \<not> cursor s < int (length png)) \<or>
        (cursor s < int (length png) \<and> r = chunk_step max_args inflate png s \<and> (\<forall>s'. r \<noteq> Continue s'))))"

text \<open>The tag and the payload of the chunk at a position, as the loop body cuts them out.\<close>

definition tag_at :: "u8 list \<Rightarrow> int \<Rightarrow> u8 list" where
  "tag_at png i = subarray png (Num (of_int (i + 4))) (Num (of_int (i + 8)))"

definition payload_at :: "u8 list \<Rightarrow> int \<Rightarrow> u8 list" where
  "payload_at png i = subarray png (Num (of_int (i + 8))) (Num (of_int (i + 8 + read32 png i)))"

text \<open>In the walk, an image of color type 2 has three channels.\<close>

definition truecolor_inv :: "walker \<Rightarrow> bool" where
  "truecolor_inv s \<longleftrightarrow> (color (image s) = Num 2 \<longrightarrow> channels (image s) = Num 3)"

section \<open>Example files\<close>

text \<open>A chunk as it lies in the file: length field, tag, payload, checksum.\<close>

definition chunk :: "u8 list \<Rightarrow> u8 list \<Rightarrow> u8 list \<Rightarrow> u8 list" where
  "chunk len tag payload = len @ tag @ payload @ [0, 0, 0, 0]"

text \<open>A file that ends after its header chunk, with the given bit depth and color type.\<close>

definition header_png :: "u8 \<Rightarrow> u8 \<Rightarrow> u8 list" where
  "header_png d c = signature @ chunk [0, 0, 0, 13] IHDR [0, 0, 0, 2, 0, 0, 0, 1, d, c, 0, 0, 0]"

text \<open>
  The files and images that the concrete instances below use. In those instances the
  identity stands for \<open>pako.inflate\<close>, so that the payload of a data chunk is the
  decompressed stream itself, and a call takes up to 65535 arguments.
\<close>

definition two_pixel_png :: "u8 list" where
  "two_pixel_png = signature
     @ chunk [0, 0, 0, 13] IHDR [0, 0, 0, 2, 0, 0, 0, 1, 8, 6, 0, 0, 0]
     @ chunk [0, 0, 0, 9] IDAT [0, 10, 20, 30, 255, 20, 30, 40, 255]
     @ chunk [0, 0, 0, 0] IEND []"

definition two_pixel_image :: imageData where
  "two_pixel_image = \<lparr>width = Num 2, height = Num 1, depth = Num 8, color = Num 6,
     channels = Num 4, data = [[Num 10, Num 20, Num 30, Num 255], [Num 20, Num 30, Num 40, Num 255]]\<rparr>"

definition truecolor_png :: "u8 list" where
  "truecolor_png = signature
     @ chunk [0, 0, 0, 13] IHDR [0, 0, 0, 2, 0, 0, 0, 1, 8, 2, 0, 0, 0]
     @ chunk [0, 0, 0, 7] IDAT [0, 10, 20, 30, 20, 30, 40]
     @ chunk [0, 0, 0, 0] IEND []"

definition truecolor_image :: imageData where
  "truecolor_image = \<lparr>width = Num 2, height = Num 1, depth = Num 8, color = Num 2,
     channels = Num 3, data = [[Num 10, Num 20, Num 30], [Num 20, Num 30, Num 40]]\<rparr>"

definition zero_width_png :: "u8 list" where
  "zero_width_png = signature
     @ chunk [0, 0, 0, 13] IHDR [0, 0, 0, 0, 0, 0, 0, 1, 8, 6, 0, 0, 0]
     @ chunk [0, 0, 0, 1] IDAT [0]
     @ chunk [0, 0, 0, 0] IEND []"

definition zero_width_image :: imageData where
  "zero_width_image = \<lparr>width = Num 0, height = Num 1, depth = Num 8, color = Num 6,
     channels = Num 4, data = []\<rparr>"

definition truncated_png :: "u8 list" where
  "truncated_png = signature @ [0, 0, 0, 100] @ IDAT @ [1, 2, 3]"

definition palette_png :: "u8 list" where
  "palette_png = header_png 8 3 @ [255, 255, 255, 244, 0, 0, 0, 0]"

definition after_palette_header :: walker where
  "after_palette_header = \<lparr>cursor = 33,
     image = \<lparr>width = Num 2, height = Num 1, depth = Num 8, color = Num 3,
                channels = Undefined, data = []\<rparr>,
     base = [], pixels = [], settled = Some PaletteUnsupported\<rparr>"

definition paeth_stream :: "u8 list" where
  "paeth_stream = [0, 10, 10, 10, 10, 10, 10, 10, 10, 4, 0, 0, 0, 0, 5, 0, 0, 0]"

definition sub_stream :: "u8 list" where
  "sub_stream = [1, 200, 20, 30, 100, 5, 6]"

definition backward_png :: "u8 list" where
  "backward_png = signature @ [255, 255, 255, 244] @ IDAT @ [1, 2, 3]"

section \<open>The loops of decodeIDAT\<close>

lemma for_lt_upt:
  "k \<le> n \<Longrightarrow> for_lt (int k) (Num (of_nat n)) body s = fold body (map int [k..<n]) s"
proof (induction "n - k" arbitrary: k s)
  case 0
  then show ?case by (simp add: for_lt.simps)
next
  case (Suc d)
  then have kn: "k < n" and d: "d = n - Suc k" by simp_all
  have "for_lt (int k) (Num (of_nat n)) body s = for_lt (int (Suc k)) (Num (of_nat n)) body (body (int k) s)"
    using kn by (subst for_lt.simps) (simp add: add.commute)
  also have "\<dots> = fold body (map int [Suc k..<n]) (body (int k) s)"
    using Suc.hyps(1) [OF d] kn by simp
  also have "\<dots> = fold body (map int [k..<n]) s"
    using kn by (simp add: upt_conv_Cons)
  finally show ?case .
qed

lemma for_lt_fold: "for_lt 0 (Num (of_nat n)) body s = fold body (map int [0..<n]) s"
  using for_lt_upt [of 0 n body s] by simp

lemma fold_push_length:
  "length (fold (push g) (map int [0..<n]) s) = length s + n"
  by (induction n) (simp_all add: push_def)

lemma take_push: "m \<le> length bs \<Longrightarrow> take m (push g k bs) = take m bs"
  by (simp add: push_def)

lemma fold_push_take:
  "m \<le> n \<Longrightarrow> take (length s + m) (fold (push g) (map int [0..<n]) s) = fold (push g) (map int [0..<m]) s"
proof (induction n)
  case 0
  then show ?case by simp
next
  case (Suc n)
  show ?case
  proof (cases "m = Suc n")
    case True
    then show ?thesis using fold_push_length [of g "Suc n" s] by simp
  next
    case False
    with Suc.prems have mn: "m \<le> n" by simp
    then show ?thesis
      using Suc.IH [OF mn] by (simp add: take_push fold_push_length)
  qed
qed

lemma fold_push_nth:
  assumes "k < n"
  shows "fold (push g) (map int [0..<n]) s ! (length s + k)
       = g (int k) (take (length s + k) (fold (push g) (map int [0..<n]) s))"
proof -
  let ?R = "fold (push g) (map int [0..<n]) s"
  let ?P = "fold (push g) (map int [0..<k]) s"
  have t: "take (length s + Suc k) ?R = fold (push g) (map int [0..<Suc k]) s"
    using fold_push_take [of "Suc k" n s g] assms by simp
  have t': "take (length s + k) ?R = ?P"
    using fold_push_take [of k n s g] assms by simp
  have "?R ! (length s + k) = take (length s + Suc k) ?R ! (length s + k)"
    by simp
  also have "\<dots> = (?P @ [g (int k) ?P]) ! (length s + k)"
    by (simp only: t) (simp add: push_def)
  also have "\<dots> = g (int k) ?P"
    using fold_push_length [of g k s] by (simp add: nth_append)
  finally show ?thesis by (simp only: t')
qed

lemma none_body_push: "none_body sc = push (filter_value (Num 0) sc st len ch j)"
  by (rule ext)+ (simp add: none_body_def push_def filter_value_def filter_core_def)

lemma sub_body_push: "sub_body sc st ch = push (filter_value (Num 1) sc st len ch j)"
  by (rule ext)+ (simp add: sub_body_def push_def filter_value_def filter_core_def)

lemma up_body_push: "up_body sc st len j = push (filter_value (Num 2) sc st len ch j)"
  by (rule ext)+ (simp add: up_body_def push_def filter_value_def filter_core_def)

lemma avg_body_push: "avg_body sc st len ch j = push (filter_value (Num 3) sc st len ch j)"
  by (rule ext)+ (simp add: avg_body_def push_def filter_value_def filter_core_def Let_def)

lemma paeth_body_push: "paeth_body sc st len ch j = push (filter_value (Num 4) sc st len ch j)"
  by (rule ext)+ (simp add: paeth_body_def push_def filter_value_def filter_core_def paeth_pick_def Let_def)

lemma scanline_step_push:
  "scanline_step stream len chans j bytes =
     (if valid_selector (row_selector stream len j)
      then Inr (for_lt 0 len (push (row_value stream len chans j)) bytes)
      else Inl (UnsupportedFilter (row_selector stream len j) j))"
  unfolding scanline_step_def Let_def row_value_def valid_selector_def
    row_selector_def [symmetric] row_scanline_def [symmetric]
  using none_body_push [of "row_scanline stream len j" "js_mul (Num (of_int j)) len" len chans j]
    sub_body_push [of "row_scanline stream len j" "js_mul (Num (of_int j)) len" chans len j]
    up_body_push [of "row_scanline stream len j" "js_mul (Num (of_int j)) len" len j chans]
    avg_body_push [of "row_scanline stream len j" "js_mul (Num (of_int j)) len" len chans j]
    paeth_body_push [of "row_scanline stream len j" "js_mul (Num (of_int j)) len" len chans j]
  by simp

lemma scanline_step_nat:
  assumes "scanline_step stream (Num (of_nat L)) ch j bytes = Inr b1"
  shows "valid_selector (row_selector stream (Num (of_nat L)) j)"
    and "b1 = fold (push (row_value stream (Num (of_nat L)) ch j)) (map int [0..<L]) bytes"
  using assms by (simp_all add: scanline_step_push for_lt_fold split: if_splits)

lemma rows_nat:
  assumes "decodeIDAT_rows stream (Num (of_nat L)) (Num (of_nat H)) ch (int j0) bytes0 = Inr bs"
    and "j0 \<le> H"
  shows "length bs = length bytes0 + (H - j0) * L \<and> take (length bytes0) bs = bytes0 \<and>
    (\<forall>j. j0 \<le> j \<and> j < H \<longrightarrow> valid_selector (row_selector stream (Num (of_nat L)) (int j)) \<and>
       (\<forall>k<L. bs ! (length bytes0 + (j - j0) * L + k) =
          row_value stream (Num (of_nat L)) ch (int j) (int k)
            (take (length bytes0 + (j - j0) * L + k) bs)))"
  using assms
proof (induction "H - j0" arbitrary: j0 bytes0)
  case 0
  then have "j0 = H" by simp
  with "0.prems"(1) have "bs = bytes0"
    by (subst (asm) decodeIDAT_rows.simps) simp
  with \<open>j0 = H\<close> show ?case by auto
next
  case (Suc d)
  let ?len = "Num (of_nat L)"
  let ?g = "row_value stream ?len ch (int j0)"
  from Suc.hyps(2) have lt: "j0 < H" and d: "d = H - Suc j0" and le: "Suc j0 \<le> H"
    by simp_all
  from Suc.prems(1) lt obtain b1 where
    step: "scanline_step stream ?len ch (int j0) bytes0 = Inr b1" and
    rest: "decodeIDAT_rows stream ?len (Num (of_nat H)) ch (int (Suc j0)) b1 = Inr bs"
    by (subst (asm) decodeIDAT_rows.simps) (simp add: add.commute split: sum.splits)
  note sel0 = scanline_step_nat(1) [OF step]
  note b1 = scanline_step_nat(2) [OF step]
  have len1: "length b1 = length bytes0 + L"
    by (simp add: b1 fold_push_length)
  have pre1: "take (length bytes0) b1 = bytes0"
    using fold_push_take [of 0 L bytes0 ?g] by (simp add: b1)
  from Suc.hyps(1) [OF d rest le]
  have lenbs: "length bs = length b1 + (H - Suc j0) * L"
    and take1: "take (length b1) bs = b1"
    and later: "\<And>j k. Suc j0 \<le> j \<Longrightarrow> j < H \<Longrightarrow>
        valid_selector (row_selector stream ?len (int j)) \<and>
        (k < L \<longrightarrow> bs ! (length b1 + (j - Suc j0) * L + k) =
          row_value stream ?len ch (int j) (int k) (take (length b1 + (j - Suc j0) * L + k) bs))"
    by blast+
  have A: "length bs = length bytes0 + (H - j0) * L"
  proof -
    have "(H - j0) * L = L + (H - Suc j0) * L"
      using lt by (metis Suc_diff_Suc mult_Suc)
    then show ?thesis by (simp add: lenbs len1)
  qed
  have B: "take (length bytes0) bs = bytes0"
  proof -
    have "take (length bytes0) bs = take (length bytes0) (take (length b1) bs)"
      by (simp add: len1 min_def)
    then show ?thesis by (simp add: take1 pre1)
  qed
  have C: "valid_selector (row_selector stream ?len (int j)) \<and>
       (\<forall>k<L. bs ! (length bytes0 + (j - j0) * L + k) =
          row_value stream ?len ch (int j) (int k) (take (length bytes0 + (j - j0) * L + k) bs))"
    if j: "j0 \<le> j" "j < H" for j
  proof (cases "j = j0")
    case True
    have "bs ! (length bytes0 + k) = ?g (int k) (take (length bytes0 + k) bs)" if k: "k < L" for k
    proof -
      have "bs ! (length bytes0 + k) = take (length b1) bs ! (length bytes0 + k)"
        using k by (simp add: len1)
      also have "\<dots> = ?g (int k) (take (length bytes0 + k) b1)"
        using fold_push_nth [OF k, of ?g bytes0] by (simp add: take1) (simp add: b1)
      also have "take (length bytes0 + k) b1 = take (length bytes0 + k) (take (length b1) bs)"
        by (simp add: take1)
      also have "\<dots> = take (length bytes0 + k) bs"
        using k by (simp add: len1 min_def)
      finally show ?thesis .
    qed
    with sel0 True show ?thesis by simp
  next
    case False
    with j have j': "Suc j0 \<le> j" by simp
    have idx: "length b1 + (j - Suc j0) * L + k = length bytes0 + (j - j0) * L + k" for k
    proof -
      have "(j - j0) * L = L + (j - Suc j0) * L"
        using j' by (metis Suc_diff_Suc Suc_le_lessD mult_Suc)
      then show ?thesis by (simp add: len1)
    qed
    from later [OF j' j(2)] show ?thesis
      by (simp add: idx)
  qed
  from A B C show ?case by blast
qed

lemma decodeIDAT_nat:
  assumes "decodeIDAT stream (Num (of_nat L)) (Num (of_nat H)) ch = Inr bs"
  shows "length bs = H * L"
    and "j < H \<Longrightarrow> valid_selector (row_selector stream (Num (of_nat L)) (int j))"
    and "j < H \<Longrightarrow> k < L \<Longrightarrow>
      bs ! (j * L + k) = row_value stream (Num (of_nat L)) ch (int j) (int k) (take (j * L + k) bs)"
  using rows_nat [of stream L H ch 0 "[]" bs] assms by (simp_all add: decodeIDAT_def)

lemma js_get_int:
  "js_get xs (Num (of_int i)) = (if 0 \<le> i \<and> i < int (length xs) then xs ! nat i else Undefined)"
  by (simp add: js_get_def)

lemma js_get_nat:
  "js_get xs (Num (of_nat i)) = (if i < length xs then xs ! i else Undefined)"
  using js_get_int [of xs "int i"] by simp

lemma u8_get_nat:
  "u8_get xs (Num (of_nat i)) = (if i < length xs then num_of_u8 (xs ! i) else Undefined)"
  by (simp add: u8_get_def js_get_nat)

lemma num_idx_row: "js_mul (Num (of_int (int j))) (js_add (Num (of_nat L)) (Num 1)) = Num (of_nat (j * (L + 1)))"
  by (simp add: algebra_simps)

lemma row_selector_nat:
  "row_selector stream (Num (of_nat L)) (int j) =
     (if j * (L + 1) < length stream then num_of_u8 (stream ! (j * (L + 1))) else Undefined)"
  unfolding row_selector_def by (simp only: num_idx_row u8_get_nat)

lemma trunc_of_nat [simp]: "trunc (of_nat n) = int n"
  by (simp add: trunc_def)

lemma rel_index_nat: "rel_index n (int m) = min m n"
  by (simp add: rel_index_def)

lemma take_drop_clamp:
  assumes "b \<le> e"
  shows "take (min e (length xs) - min b (length xs)) (drop (min b (length xs)) xs)
       = take (e - b) (drop b xs)"
proof (cases "b \<le> length xs")
  case True
  show ?thesis
  proof (cases "e \<le> length xs")
    case True
    with \<open>b \<le> length xs\<close> show ?thesis by (simp add: min_def)
  next
    case False
    with True assms show ?thesis by (simp add: min_def)
  qed
next
  case False
  then show ?thesis by simp
qed

lemma row_scanline_nat:
  "row_scanline stream (Num (of_nat L)) (int j) = take L (drop (j * (L + 1) + 1) stream)"
proof -
  have b: "js_add (js_mul (Num (of_int (int j))) (js_add (Num (of_nat L)) (Num 1))) (Num 1)
      = Num (of_nat (j * (L + 1) + 1))"
    by (simp add: algebra_simps)
  have e: "js_mul (Num (of_int (int j + 1))) (js_add (Num (of_nat L)) (Num 1))
      = Num (of_nat (j * (L + 1) + 1 + L))"
    by (simp add: algebra_simps)
  have "row_scanline stream (Num (of_nat L)) (int j)
      = take (min (j * (L + 1) + 1 + L) (length stream) - min (j * (L + 1) + 1) (length stream))
          (drop (min (j * (L + 1) + 1) (length stream)) stream)"
    unfolding row_scanline_def b e subarray_def Let_def to_integer.simps trunc_of_nat rel_index_nat
    by (rule refl)
  also have "\<dots> = take (j * (L + 1) + 1 + L - (j * (L + 1) + 1)) (drop (j * (L + 1) + 1) stream)"
    by (rule take_drop_clamp) simp
  finally show ?thesis by simp
qed

lemma scanline_get_nat:
  assumes "k < L"
  shows "u8_get (row_scanline stream (Num (of_nat L)) (int j)) (Num (of_int (int k))) =
    (if j * (L + 1) + 1 + k < length stream then num_of_u8 (stream ! (j * (L + 1) + 1 + k))
     else Undefined)"
  using assms u8_get_nat [of "take L (drop (j * (L + 1) + 1) stream)" k]
  by (auto simp add: row_scanline_nat)

lemma gt_channels: "js_gt (Num (of_int (int k))) (js_sub (Num (of_nat ch)) (Num 1)) \<longleftrightarrow> ch \<le> k"
proof -
  have "(of_nat ch - 1 < (of_nat k :: rat)) \<longleftrightarrow> (of_int (int ch - 1) < (of_int (int k) :: rat))"
    by simp
  also have "\<dots> \<longleftrightarrow> int ch - 1 < int k"
    by (simp only: of_int_less_iff)
  finally show ?thesis by auto
qed

lemma idx_a:
  assumes "ch \<le> j * L + k"
  shows "js_sub (js_add (js_mul (Num (of_int (int j))) (Num (of_nat L))) (Num (of_int (int k))))
      (Num (of_nat ch)) = Num (of_nat (j * L + k - ch))"
proof -
  have "(of_nat (j * L + k - ch) :: rat) = of_nat (j * L + k) - of_nat ch"
    using assms by (rule of_nat_diff)
  then show ?thesis by simp
qed

lemma idx_c:
  assumes "L + ch \<le> j * L + k"
  shows "js_sub (js_sub (js_add (js_mul (Num (of_int (int j))) (Num (of_nat L)))
      (Num (of_int (int k)))) (Num (of_nat L))) (Num (of_nat ch)) = Num (of_nat (j * L + k - L - ch))"
proof -
  have "(of_nat (j * L + k - (L + ch)) :: rat) = of_nat (j * L + k) - of_nat (L + ch)"
    using assms by (rule of_nat_diff)
  then show ?thesis by simp
qed

lemma left_a_nat:
  assumes "0 < ch" and "pre = take (j * L + k) bs" and "j * L + k \<le> length bs"
  shows "left_a pre (js_mul (Num (of_int (int j))) (Num (of_nat L))) (Num (of_nat ch)) (int k) =
    (if ch \<le> k then bs ! (j * L + k - ch) else Num 0)"
proof (cases "ch \<le> k")
  case True
  then have le: "ch \<le> j * L + k" by simp
  have "left_a pre (js_mul (Num (of_int (int j))) (Num (of_nat L))) (Num (of_nat ch)) (int k)
     = js_get pre (Num (of_nat (j * L + k - ch)))"
    unfolding left_a_def gt_channels idx_a [OF le] using True by simp
  also have "\<dots> = bs ! (j * L + k - ch)"
    using True assms by (simp only: js_get_nat) simp
  finally show ?thesis using True by simp
next
  case False
  then show ?thesis unfolding left_a_def gt_channels by simp
qed

lemma up_b_nat:
  assumes "k < L" and "pre = take (j * L + k) bs" and "j * L + k \<le> length bs"
  shows "up_b pre (js_mul (Num (of_int (int j))) (Num (of_nat L))) (Num (of_nat L)) (int j) (int k) =
    (if j \<noteq> 0 then bs ! (j * L + k - L) else Num 0)"
proof (cases "j = 0")
  case True
  then show ?thesis by (simp add: up_b_def)
next
  case False
  then obtain j' where j': "j = Suc j'" by (cases j) auto
  then have le: "L \<le> j * L + k" by simp
  have "up_b pre (js_mul (Num (of_int (int j))) (Num (of_nat L))) (Num (of_nat L)) (int j) (int k)
     = js_get pre (Num (of_nat (j * L + k - L)))"
    unfolding up_b_def idx_a [OF le] using False by simp
  also have "\<dots> = bs ! (j * L + k - L)"
    using assms j' by (simp only: js_get_nat) simp
  finally show ?thesis using False by simp
qed

lemma upleft_c_nat:
  assumes "0 < ch" and "k < L" and "pre = take (j * L + k) bs" and "j * L + k \<le> length bs"
  shows "upleft_c pre (js_mul (Num (of_int (int j))) (Num (of_nat L))) (Num (of_nat L))
       (Num (of_nat ch)) (int j) (int k) =
    (if ch \<le> k \<and> j \<noteq> 0 then bs ! (j * L + k - L - ch) else Num 0)"
proof (cases "ch \<le> k \<and> j \<noteq> 0")
  case True
  then obtain j' where j': "j = Suc j'" by (cases j) auto
  with True have le: "L + ch \<le> j * L + k" by simp
  have "upleft_c pre (js_mul (Num (of_int (int j))) (Num (of_nat L))) (Num (of_nat L))
       (Num (of_nat ch)) (int j) (int k) = js_get pre (Num (of_nat (j * L + k - L - ch)))"
    unfolding upleft_c_def gt_channels idx_c [OF le] using True by simp
  also have "\<dots> = bs ! (j * L + k - L - ch)"
  proof -
    have "j * L + k - L - ch < j * L + k"
      using le assms(1) by arith
    then show ?thesis
      using assms(3,4) by (simp add: js_get_nat)
  qed
  finally show ?thesis using True by simp
next
  case False
  then show ?thesis unfolding upleft_c_def gt_channels by auto
qed

lemma row_value_nat:
  assumes "0 < ch" and "k < L" and "j * L + k \<le> length bs"
    and "j * (L + 1) + 1 + k < length stream"
  shows "row_value stream (Num (of_nat L)) (Num (of_nat ch)) (int j) (int k) (take (j * L + k) bs) =
    filter_core (num_of_u8 (stream ! (j * (L + 1)))) (num_of_u8 (stream ! (j * (L + 1) + 1 + k)))
      (if ch \<le> k then bs ! (j * L + k - ch) else Num 0)
      (if j \<noteq> 0 then bs ! (j * L + k - L) else Num 0)
      (if ch \<le> k \<and> j \<noteq> 0 then bs ! (j * L + k - L - ch) else Num 0)"
proof -
  have sel: "j * (L + 1) < length stream"
    using assms(4) by simp
  show ?thesis
    unfolding row_value_def filter_value_def
    by (simp only: left_a_nat [OF assms(1) refl assms(3)] up_b_nat [OF assms(2) refl assms(3)]
        upleft_c_nat [OF assms(1,2) refl assms(3)] scanline_get_nat [OF assms(2)]
        row_selector_nat sel assms(4) if_True)
qed


lemma byte_val_num [simp]: "byte_val (byte_num n) = n"
  by (simp add: byte_val_def byte_num_def)

lemma num_of_u8_byte: "num_of_u8 w = byte_num (unat w)"
  by (simp add: num_of_u8_def byte_num_def)

lemma is_byte_u8: "is_byte (num_of_u8 w)"
proof -
  have "unat w < 2 ^ LENGTH(8)" by (rule unsigned_less)
  then show ?thesis unfolding is_byte_def num_of_u8_byte by auto
qed

lemma is_byte_zero: "is_byte (Num 0)"
  unfolding is_byte_def byte_num_def by (rule exI [of _ 0]) simp

lemma js_mod_256: "js_mod (Num (of_nat m)) (Num 256) = byte_num (m mod 256)"
proof -
  have "\<lfloor>(of_nat m :: rat) / of_nat 256\<rfloor> = int (m div 256)"
    by (rule floor_divide_of_nat_eq)
  then have t: "trunc (of_nat m / 256) = int (m div 256)"
    by (simp add: trunc_def)
  have "m = 256 * (m div 256) + m mod 256" by simp
  then have "(of_nat m :: rat) = of_nat (256 * (m div 256) + m mod 256)" by simp
  then have "(of_nat m :: rat) - 256 * of_nat (m div 256) = of_nat (m mod 256)"
    by (simp only: of_nat_add of_nat_mult)
  then show ?thesis by (simp add: t byte_num_def)
qed

lemma js_mod_256_int:
  assumes "0 \<le> m"
  shows "js_mod (Num (of_int m)) (Num 256) = Num (of_int (m mod 256))"
proof -
  have "js_mod (Num (of_nat (nat m))) (Num 256) = byte_num (nat m mod 256)"
    by (rule js_mod_256)
  moreover have "int (nat m mod 256) = m mod 256"
    using assms by (simp add: zmod_int)
  moreover have "(of_nat (nat m) :: rat) = of_int m"
    using assms by (metis of_int_of_nat_eq int_nat_eq)
  moreover have "(of_nat (nat m mod 256) :: rat) = of_int (int (nat m mod 256))"
    by (simp only: of_int_of_nat_eq)
  ultimately show ?thesis
    by (simp only: byte_num_def)
qed

lemma is_byte_mod: "is_byte (js_mod (Num (of_nat m)) (Num 256))"
  unfolding js_mod_256 is_byte_def by (rule exI [of _ "m mod 256"]) simp

lemma paeth_pick_int:
  "paeth_pick (Num (of_int a)) (Num (of_int b)) (Num (of_int c)) = Num (of_int (paeth_spec a b c))"
proof -
  have abs_eq: "\<bar>(of_int x :: rat)\<bar> = of_int \<bar>x\<bar>" for x by simp
  have "paeth_pick (Num (of_int a)) (Num (of_int b)) (Num (of_int c)) =
     (let p = a + b - c
      in if \<bar>p - a\<bar> > \<bar>p - b\<bar>
         then (if \<bar>p - b\<bar> > \<bar>p - c\<bar> then Num (of_int c) else Num (of_int b))
         else (if \<bar>p - a\<bar> > \<bar>p - c\<bar> then Num (of_int c) else Num (of_int a)))"
    unfolding paeth_pick_def Let_def js_add.simps js_sub.simps js_abs.simps js_gt.simps
    by (simp only: of_int_add [symmetric] of_int_diff [symmetric] abs_eq of_int_less_iff)
  also have "\<dots> = Num (of_int (paeth_spec a b c))"
    unfolding paeth_spec_def Let_def by auto
  finally show ?thesis .
qed

lemma js_add_byte: "js_add (byte_num m) (byte_num n) = Num (of_nat (m + n))"
  by (simp add: byte_num_def)

lemma js_avg_byte:
  "js_floor (js_div (Num (of_nat s)) (Num 2)) = byte_num (s div 2)"
proof -
  have "\<lfloor>(of_nat s :: rat) / of_nat 2\<rfloor> = int (s div 2)"
    by (rule floor_divide_of_nat_eq)
  then show ?thesis
    by (simp add: byte_num_def)
qed

lemma paeth_pick_cases: "paeth_pick a b c = a \<or> paeth_pick a b c = b \<or> paeth_pick a b c = c"
  by (simp add: paeth_pick_def Let_def)

lemma is_byte_filter_core:
  assumes "is_byte x" "is_byte a" "is_byte b" "is_byte c"
  shows "is_byte (filter_core sel x a b c)"
proof -
  from assms obtain xn an bn cn where
    v: "x = byte_num xn" "a = byte_num an" "b = byte_num bn" "c = byte_num cn"
    unfolding is_byte_def by blast
  from paeth_pick_cases [of a b c] obtain pn where p: "paeth_pick a b c = byte_num pn"
    using v by auto
  have "is_byte (js_mod x (Num 256))"
    unfolding v byte_num_def by (rule is_byte_mod)
  moreover have "is_byte (js_mod (js_add a x) (Num 256))"
    unfolding v js_add_byte by (rule is_byte_mod)
  moreover have "is_byte (js_mod (js_add b x) (Num 256))"
    unfolding v js_add_byte by (rule is_byte_mod)
  moreover have "is_byte (js_mod (js_add (js_floor (js_div (js_add a b) (Num 2))) x) (Num 256))"
    unfolding v js_avg_byte js_add_byte by (rule is_byte_mod)
  moreover have "is_byte (js_mod (js_add (paeth_pick a b c) x) (Num 256))"
    unfolding p unfolding v js_add_byte by (rule is_byte_mod)
  ultimately show ?thesis
    by (simp add: filter_core_def)
qed

lemma decodeIDAT_bytes:
  assumes dec: "decodeIDAT stream (Num (of_nat L)) (Num (of_nat H)) (Num (of_nat ch)) = Inr bs"
    and ch: "0 < ch" and full: "H * (L + 1) \<le> length stream"
  shows "pos < H * L \<Longrightarrow> is_byte (bs ! pos)"
proof (induction pos rule: less_induct)
  case (less pos)
  from less.prems have L: "0 < L"
    by (cases L) simp_all
  define j where "j = pos div L"
  define k where "k = pos mod L"
  have pos: "pos = j * L + k" and k: "k < L"
    using L by (simp_all add: j_def k_def)
  have j: "j < H"
    using less.prems L unfolding j_def by (simp add: less_mult_imp_div_less)
  have len: "length bs = H * L"
    by (rule decodeIDAT_nat(1) [OF dec])
  have le: "j * L + k \<le> length bs"
    using less.prems by (simp add: len pos)
  have "Suc j * (L + 1) \<le> H * (L + 1)"
    using j by (intro mult_le_mono1) simp
  then have inr: "j * (L + 1) + 1 + k < length stream"
    using full k by simp
  have prev: "is_byte (bs ! i)" if "i < pos" for i
    using less.IH [OF that] that less.prems by simp
  have a: "is_byte (if ch \<le> k then bs ! (j * L + k - ch) else Num 0)"
    using prev [of "j * L + k - ch"] ch by (auto simp add: pos is_byte_zero)
  have b: "is_byte (if j \<noteq> 0 then bs ! (j * L + k - L) else Num 0)"
    using prev [of "j * L + k - L"] L by (auto simp add: pos is_byte_zero)
  have c: "is_byte (if ch \<le> k \<and> j \<noteq> 0 then bs ! (j * L + k - L - ch) else Num 0)"
    using prev [of "j * L + k - L - ch"] L by (auto simp add: pos is_byte_zero)
  have "bs ! pos = row_value stream (Num (of_nat L)) (Num (of_nat ch)) (int j) (int k)
      (take (j * L + k) bs)"
    unfolding pos by (rule decodeIDAT_nat(3) [OF dec j k])
  also have "\<dots> = filter_core (num_of_u8 (stream ! (j * (L + 1))))
      (num_of_u8 (stream ! (j * (L + 1) + 1 + k)))
      (if ch \<le> k then bs ! (j * L + k - ch) else Num 0)
      (if j \<noteq> 0 then bs ! (j * L + k - L) else Num 0)
      (if ch \<le> k \<and> j \<noteq> 0 then bs ! (j * L + k - L - ch) else Num 0)"
    by (rule row_value_nat [OF ch k le inr])
  finally show ?case
    using is_byte_filter_core [OF is_byte_u8 a b c] by simp
qed

lemma decodeIDAT_out:
  assumes dec: "decodeIDAT stream (Num (of_nat L)) (Num (of_nat H)) (Num (of_nat ch)) = Inr bs"
    and ch: "0 < ch" and full: "H * (L + 1) \<le> length stream"
  shows "bs = map byte_num (map byte_val bs)" and "\<forall>v \<in> set (map byte_val bs). v < 256"
proof -
  have len: "length bs = H * L"
    by (rule decodeIDAT_nat(1) [OF dec])
  have each: "bs ! i = byte_num (byte_val (bs ! i)) \<and> byte_val (bs ! i) < 256" if "i < length bs" for i
    using decodeIDAT_bytes [OF dec ch full, of i] that unfolding len is_byte_def by auto
  show "bs = map byte_num (map byte_val bs)"
  proof (rule nth_equalityI)
    show "length bs = length (map byte_num (map byte_val bs))" by simp
  next
    fix i assume "i < length bs"
    with each [of i] show "bs ! i = map byte_num (map byte_val bs) ! i" by simp
  qed
  show "\<forall>v \<in> set (map byte_val bs). v < 256"
    using each by (auto simp add: in_set_conv_nth)
qed

lemma paeth_spec_cases: "paeth_spec a b c = a \<or> paeth_spec a b c = b \<or> paeth_spec a b c = c"
  by (simp add: paeth_spec_def Let_def)

lemma byte_num_int: "byte_num n = Num (of_int (int n))"
  by (simp add: byte_num_def)

lemma above_index: "j \<noteq> 0 \<Longrightarrow> j * L + k - L = (j - 1) * L + (k::nat)"
  by (cases j) simp_all

lemma decodeIDAT_cell:
  assumes dec: "decodeIDAT stream (Num (of_nat L)) (Num (of_nat H)) (Num (of_nat ch)) = Inr bs"
    and ch: "0 < ch" and full: "H * (L + 1) \<le> length stream"
    and j: "j < H" and k: "k < L"
  shows "bs ! (j * L + k) =
    filter_core (num_of_u8 (stream ! (j * (L + 1)))) (num_of_u8 (stream ! (j * (L + 1) + 1 + k)))
      (if ch \<le> k then bs ! (j * L + k - ch) else Num 0)
      (if j \<noteq> 0 then bs ! ((j - 1) * L + k) else Num 0)
      (if ch \<le> k \<and> j \<noteq> 0 then bs ! ((j - 1) * L + k - ch) else Num 0)"
proof -
  have len: "length bs = H * L"
    by (rule decodeIDAT_nat(1) [OF dec])
  have "Suc j * L \<le> H * L"
    using j by (intro mult_le_mono1) simp
  then have le: "j * L + k \<le> length bs"
    using k by (simp add: len)
  have "Suc j * (L + 1) \<le> H * (L + 1)"
    using j by (intro mult_le_mono1) simp
  then have inr: "j * (L + 1) + 1 + k < length stream"
    using full k by simp
  have "bs ! (j * L + k) = row_value stream (Num (of_nat L)) (Num (of_nat ch)) (int j) (int k)
      (take (j * L + k) bs)"
    by (rule decodeIDAT_nat(3) [OF dec j k])
  also have "\<dots> = filter_core (num_of_u8 (stream ! (j * (L + 1))))
      (num_of_u8 (stream ! (j * (L + 1) + 1 + k)))
      (if ch \<le> k then bs ! (j * L + k - ch) else Num 0)
      (if j \<noteq> 0 then bs ! (j * L + k - L) else Num 0)
      (if ch \<le> k \<and> j \<noteq> 0 then bs ! (j * L + k - L - ch) else Num 0)"
    by (rule row_value_nat [OF ch k le inr])
  finally show ?thesis
    by (cases "j = 0") (simp_all add: above_index)
qed

lemma paeth_cell:
  assumes dec: "decodeIDAT stream (Num (of_nat L)) (Num (of_nat H)) (Num (of_nat ch)) = Inr bs"
    and ch: "0 < ch" and full: "H * (L + 1) \<le> length stream"
    and j: "j < H" and k: "k < L" and sel: "stream ! (j * (L + 1)) = 4"
  shows "\<exists>out. bs = map byte_num out \<and> length out = H * L \<and>
    (let a = (if k < ch then 0 else int (out ! (j * L + k - ch)));
         b = (if j = 0 then 0 else int (out ! ((j - 1) * L + k)));
         c = (if j = 0 \<or> k < ch then 0 else int (out ! ((j - 1) * L + k - ch)))
     in int (out ! (j * L + k)) =
          (paeth_spec a b c + int (unat (stream ! (j * (L + 1) + 1 + k)))) mod 256) \<and>
    paeth_spec v v v = v"
proof -
  define out where "out = map byte_val bs"
  have bs: "bs = map byte_num out"
    unfolding out_def by (rule decodeIDAT_out(1) [OF dec ch full])
  have len: "length out = H * L"
    unfolding out_def using decodeIDAT_nat(1) [OF dec] by simp
  have "Suc j * L \<le> H * L"
    using j by (intro mult_le_mono1) simp
  then have pos: "j * L + k < length out"
    using k by (simp add: len)
  have nth: "bs ! i = Num (of_int (int (out ! i)))" if "i < length out" for i
    using that by (subst bs) (simp add: byte_num_int)
  define a where "a = (if k < ch then 0 else int (out ! (j * L + k - ch)))"
  define b where "b = (if j = 0 then 0 else int (out ! ((j - 1) * L + k)))"
  define c where "c = (if j = 0 \<or> k < ch then 0 else int (out ! ((j - 1) * L + k - ch)))"
  define x where "x = int (unat (stream ! (j * (L + 1) + 1 + k)))"
  have a: "(if ch \<le> k then bs ! (j * L + k - ch) else Num 0) = Num (of_int a)"
    using pos by (simp add: a_def nth)
  have up: "(j - 1) * L + k < length out" if "j \<noteq> 0"
  proof -
    from that have "(j - 1) * L + k = j * L + k - L" by (simp add: above_index)
    with pos show ?thesis by simp
  qed
  have b: "(if j \<noteq> 0 then bs ! ((j - 1) * L + k) else Num 0) = Num (of_int b)"
    using up by (simp add: b_def nth)
  have c: "(if ch \<le> k \<and> j \<noteq> 0 then bs ! ((j - 1) * L + k - ch) else Num 0) = Num (of_int c)"
  proof (cases "ch \<le> k \<and> j \<noteq> 0")
    case True
    then have "(j - 1) * L + k - ch < length out"
      using up by (simp add: less_imp_diff_less)
    with True show ?thesis by (simp add: c_def nth)
  next
    case False
    then show ?thesis by (auto simp add: c_def)
  qed
  have nonneg: "0 \<le> a" "0 \<le> b" "0 \<le> c" "0 \<le> x"
    by (simp_all add: a_def b_def c_def x_def)
  then have p0: "0 \<le> paeth_spec a b c + x"
    using paeth_spec_cases [of a b c] by auto
  have "Num (of_int (int (out ! (j * L + k)))) = bs ! (j * L + k)"
    by (simp add: nth [OF pos])
  also have "\<dots> = filter_core (Num 4) (Num (of_int x)) (Num (of_int a)) (Num (of_int b)) (Num (of_int c))"
    unfolding decodeIDAT_cell [OF dec ch full j k] a b c sel
    by (simp add: num_of_u8_def x_def)
  also have "\<dots> = js_mod (Num (of_int (paeth_spec a b c + x))) (Num 256)"
    by (simp add: filter_core_def paeth_pick_int)
  also have "\<dots> = Num (of_int ((paeth_spec a b c + x) mod 256))"
    by (rule js_mod_256_int [OF p0])
  finally have "int (out ! (j * L + k)) = (paeth_spec a b c + x) mod 256"
    by (simp only: jsnum.inject of_int_eq_iff)
  moreover have "paeth_spec v v v = v"
    by (simp add: paeth_spec_def)
  ultimately show ?thesis
    using bs len unfolding a_def b_def c_def x_def Let_def by blast
qed

lemma byte_num_inj: "byte_num m = byte_num n \<longleftrightarrow> m = n"
  by (simp add: byte_num_def)

lemma sub_cell:
  assumes dec: "decodeIDAT stream (Num (of_nat L)) (Num (of_nat H)) (Num 3) = Inr bs"
    and full: "H * (L + 1) \<le> length stream"
    and j: "j < H" and k: "k < L" and sel: "stream ! (j * (L + 1)) = 1"
  shows "\<exists>out. bs = map byte_num out \<and> length out = H * L \<and>
    out ! (j * L + k) =
      (if 3 \<le> k then (unat (stream ! (j * (L + 1) + 1 + k)) + out ! (j * L + k - 3)) mod 256
       else unat (stream ! (j * (L + 1) + 1 + k)) mod 256)"
proof -
  have dec': "decodeIDAT stream (Num (of_nat L)) (Num (of_nat H)) (Num (of_nat 3)) = Inr bs"
    using dec by simp
  have ch: "(0::nat) < 3" by simp
  define out where "out = map byte_val bs"
  define x where "x = unat (stream ! (j * (L + 1) + 1 + k))"
  have bs: "bs = map byte_num out"
    unfolding out_def by (rule decodeIDAT_out(1) [OF dec' ch full])
  have len: "length out = H * L"
    unfolding out_def using decodeIDAT_nat(1) [OF dec'] by simp
  have "Suc j * L \<le> H * L"
    using j by (intro mult_le_mono1) simp
  then have pos: "j * L + k < length out"
    using k by (simp add: len)
  have nth: "bs ! i = byte_num (out ! i)" if "i < length out" for i
    using that by (subst bs) simp
  have a: "(if 3 \<le> k then bs ! (j * L + k - 3) else Num 0)
      = byte_num (if 3 \<le> k then out ! (j * L + k - 3) else 0)"
    using pos by (simp add: nth) (simp add: byte_num_def)
  have one: "num_of_u8 1 = Num 1"
    by (simp add: num_of_u8_def)
  have "byte_num (out ! (j * L + k)) = bs ! (j * L + k)"
    by (simp add: nth [OF pos])
  also have "\<dots> = filter_core (Num 1) (byte_num x)
      (byte_num (if 3 \<le> k then out ! (j * L + k - 3) else 0))
      (if j \<noteq> 0 then bs ! ((j - 1) * L + k) else Num 0)
      (if 3 \<le> k \<and> j \<noteq> 0 then bs ! ((j - 1) * L + k - 3) else Num 0)"
    unfolding decodeIDAT_cell [OF dec' ch full j k] a sel one
    unfolding num_of_u8_byte x_def by (rule refl)
  also have "\<dots> = js_mod (js_add (byte_num (if 3 \<le> k then out ! (j * L + k - 3) else 0))
      (byte_num x)) (Num 256)"
    by (simp add: filter_core_def)
  also have "\<dots> = byte_num (((if 3 \<le> k then out ! (j * L + k - 3) else 0) + x) mod 256)"
    unfolding js_add_byte by (rule js_mod_256)
  finally have "out ! (j * L + k) = ((if 3 \<le> k then out ! (j * L + k - 3) else 0) + x) mod 256"
    by (simp only: byte_num_inj)
  then have "out ! (j * L + k) =
      (if 3 \<le> k then (x + out ! (j * L + k - 3)) mod 256 else x mod 256)"
    by (simp add: add.commute)
  with bs len show ?thesis
    unfolding x_def by blast
qed

lemma scanline_step_reject:
  "scanline_step stream len ch j bytes = Inl e \<Longrightarrow> \<exists>sel. e = UnsupportedFilter sel j"
  by (auto simp add: scanline_step_push split: if_splits)

lemma rows_reject:
  "decodeIDAT_rows stream len rows ch j bytes = Inl e \<Longrightarrow> \<exists>sel r. e = UnsupportedFilter sel r"
proof (induction stream len rows ch j bytes rule: decodeIDAT_rows.induct)
  case (1 stream len rows chans j bytes)
  show ?case
  proof (cases "js_lt (Num (of_int j)) rows")
    case False
    with "1.prems" show ?thesis
      by (subst (asm) decodeIDAT_rows.simps) simp
  next
    case True
    show ?thesis
    proof (cases "scanline_step stream len chans j bytes")
      case (Inl e')
      with True "1.prems" have "e = e'"
        by (subst (asm) decodeIDAT_rows.simps) simp
      with Inl scanline_step_reject show ?thesis by blast
    next
      case (Inr b1)
      with True "1.prems" have "decodeIDAT_rows stream len rows chans (j + 1) b1 = Inl e"
        by (subst (asm) decodeIDAT_rows.simps) simp
      with "1.IH" [OF True Inr] show ?thesis by blast
    qed
  qed
qed

section \<open>What decodeIDAT returns\<close>

lemma valid_selector_u8: "valid_selector (num_of_u8 w) \<longleftrightarrow> unat w \<le> 4"
proof -
  have "(of_nat (unat w) :: rat) = of_nat n \<longleftrightarrow> unat w = n" for n
    by (rule of_nat_eq_iff)
  from this [of 0] this [of 1] this [of 2] this [of 3] this [of 4]
  have "valid_selector (num_of_u8 w) \<longleftrightarrow>
      unat w = 0 \<or> unat w = 1 \<or> unat w = 2 \<or> unat w = 3 \<or> unat w = 4"
    unfolding valid_selector_def num_of_u8_def jsnum.inject by simp
  then show ?thesis by auto
qed

lemma valid_selector_row:
  "valid_selector (row_selector stream (Num (of_nat L)) (int i)) \<longleftrightarrow> supported_row stream L i"
proof (cases "i * (L + 1) < length stream")
  case True
  then show ?thesis
    by (simp only: row_selector_nat if_True valid_selector_u8 supported_row_def) simp
next
  case False
  then show ?thesis
    by (simp only: row_selector_nat if_False supported_row_def) (simp add: valid_selector_def)
qed

lemma rows_valid_Inr:
  assumes "j0 \<le> H"
    and "\<forall>i. j0 \<le> i \<and> i < H \<longrightarrow> supported_row stream L i"
  shows "\<exists>bs. decodeIDAT_rows stream (Num (of_nat L)) (Num (of_nat H)) ch (int j0) bytes0 = Inr bs"
  using assms
proof (induction "H - j0" arbitrary: j0 bytes0)
  case 0
  then have "j0 = H" by simp
  then show ?case by (subst decodeIDAT_rows.simps) simp
next
  case (Suc d)
  then have lt: "j0 < H" and d: "d = H - Suc j0" and le: "Suc j0 \<le> H" by simp_all
  from Suc.prems(2) lt have "valid_selector (row_selector stream (Num (of_nat L)) (int j0))"
    by (simp add: valid_selector_row)
  then obtain b1 where step: "scanline_step stream (Num (of_nat L)) ch (int j0) bytes0 = Inr b1"
    by (simp add: scanline_step_push)
  from Suc.prems(2) have "\<forall>i. Suc j0 \<le> i \<and> i < H \<longrightarrow> supported_row stream L i"
    by simp
  from Suc.hyps(1) [OF d le this, of b1] obtain bs where
    "decodeIDAT_rows stream (Num (of_nat L)) (Num (of_nat H)) ch (int (Suc j0)) b1 = Inr bs" ..
  with step lt show ?case
    by (subst decodeIDAT_rows.simps) (simp add: add.commute)
qed


lemma decodeIDAT_supported:
  assumes "\<forall>i<H. supported_row stream L i"
  shows "\<exists>bs. decodeIDAT stream (Num (of_nat L)) (Num (of_nat H)) ch = Inr bs"
  using rows_valid_Inr [of 0 H stream L ch "[]"] assms by (simp add: decodeIDAT_def)


lemma supported_full:
  assumes "H * (L + 1) \<le> length stream" and "\<forall>i<H. unat (stream ! (i * (L + 1))) \<le> 4"
  shows "\<forall>i<H. supported_row stream L i"
proof (intro allI impI)
  fix i assume i: "i < H"
  then have "Suc i * (L + 1) \<le> H * (L + 1)"
    by (intro mult_le_mono1) simp
  with assms(1) have "i * (L + 1) < length stream" by simp
  with assms(2) i show "supported_row stream L i"
    by (simp add: supported_row_def)
qed

lemma decodeIDAT_index_Inr:
  "decodeIDAT stream len rows (Num 4) = Inr bs \<Longrightarrow> decodeIDAT_index stream len rows = Inr bs"
  by (simp add: decodeIDAT_index_def)


text \<open>
  Claim C1. For a stream that holds all \<open>height * (stride + 1)\<close> bytes and whose rows
  all have a selector from 0 to 4, \<open>decodeIDAT\<close> returns \<open>height * stride\<close> bytes, and
  in a scanline with filter selector 4 (Paeth) every reconstructed byte is
  \<open>(chosen + filteredByte) mod 256\<close>, where \<open>a\<close> is the reconstructed byte
  \<open>channels\<close> positions to the left (0 within the first pixel), \<open>b\<close> the one
  directly above (0 on the first row), \<open>c\<close> the one diagonally up-left (0 on the first
  row or within the first pixel), and the chosen value is that of \<open>paeth_spec\<close>:
  \<open>a\<close> if \<open>pa \<le> pb\<close> and \<open>pa \<le> pc\<close>, else \<open>b\<close> if \<open>pb \<le> pc\<close>, else
  \<open>c\<close>. When \<open>a = b = c\<close> the chosen value is \<open>a\<close>. With four channels the
  revision with the constant 4 returns the same bytes.
\<close>

theorem paeth_reconstruction:
  assumes ch: "0 < ch" and full: "H * (L + 1) \<le> length stream"
    and sels: "\<forall>i<H. unat (stream ! (i * (L + 1))) \<le> 4"
    and j: "j < H" and k: "k < L" and sel: "stream ! (j * (L + 1)) = 4"
  shows "\<exists>out.
    decodeIDAT stream (Num (of_nat L)) (Num (of_nat H)) (Num (of_nat ch)) = Inr (map byte_num out) \<and>
    (ch = 4 \<longrightarrow> decodeIDAT_index stream (Num (of_nat L)) (Num (of_nat H)) = Inr (map byte_num out)) \<and>
    length out = H * L \<and>
    (let a = (if k < ch then 0 else int (out ! (j * L + k - ch)));
         b = (if j = 0 then 0 else int (out ! ((j - 1) * L + k)));
         c = (if j = 0 \<or> k < ch then 0 else int (out ! ((j - 1) * L + k - ch)))
     in int (out ! (j * L + k)) =
          (paeth_spec a b c + int (unat (stream ! (j * (L + 1) + 1 + k)))) mod 256) \<and>
    paeth_spec v v v = v"
proof -
  from decodeIDAT_supported [OF supported_full [OF full sels]]
  obtain bs where dec: "decodeIDAT stream (Num (of_nat L)) (Num (of_nat H)) (Num (of_nat ch)) = Inr bs"
    by blast
  from paeth_cell [OF dec ch full j k sel, of v]
  obtain out where bs: "bs = map byte_num out" and len: "length out = H * L"
    and cell: "(let a = (if k < ch then 0 else int (out ! (j * L + k - ch)));
         b = (if j = 0 then 0 else int (out ! ((j - 1) * L + k)));
         c = (if j = 0 \<or> k < ch then 0 else int (out ! ((j - 1) * L + k - ch)))
     in int (out ! (j * L + k)) =
          (paeth_spec a b c + int (unat (stream ! (j * (L + 1) + 1 + k)))) mod 256)"
    and tie: "paeth_spec v v v = v"
    by blast
  have "decodeIDAT_index stream (Num (of_nat L)) (Num (of_nat H)) = Inr (map byte_num out)"
    if "ch = 4"
    using dec that by (simp add: bs decodeIDAT_index_Inr)
  with dec bs len cell tie show ?thesis by blast
qed

text \<open>
  Two rows of two pixels with four channels. The first row is filled with 10; in the
  Paeth row the byte at column 4 has \<open>a = b = c = 10\<close> and the filtered byte 5.
\<close>

theorem paeth_reconstruction_witness:
  "\<exists>out.
    decodeIDAT paeth_stream (Num (of_nat 8)) (Num (of_nat 2)) (Num (of_nat 4)) = Inr (map byte_num out) \<and>
    decodeIDAT_index paeth_stream (Num (of_nat 8)) (Num (of_nat 2)) = Inr (map byte_num out) \<and>
    length out = 2 * 8 \<and>
    (let a = (if (4::nat) < 4 then 0 else int (out ! (1 * 8 + 4 - 4)));
         b = (if (1::nat) = 0 then 0 else int (out ! ((1 - 1) * 8 + 4)));
         c = (if (1::nat) = 0 \<or> (4::nat) < 4 then 0 else int (out ! ((1 - 1) * 8 + 4 - 4)))
     in int (out ! (1 * 8 + 4)) =
          (paeth_spec a b c + int (unat (paeth_stream ! (1 * (8 + 1) + 1 + 4)))) mod 256) \<and>
    paeth_spec 10 10 10 = 10"
proof -
  have ch: "(0::nat) < 4" by simp
  have full: "2 * (8 + 1) \<le> length paeth_stream"
    by (simp add: paeth_stream_def)
  have sels: "\<forall>i<2. unat (paeth_stream ! (i * (8 + 1))) \<le> 4"
    by (simp add: paeth_stream_def less_Suc_eq numeral_2_eq_2)
  have j: "(1::nat) < 2" and k: "(4::nat) < 8" by simp_all
  have sel: "paeth_stream ! (1 * (8 + 1)) = 4"
    by (simp add: paeth_stream_def)
  from paeth_reconstruction [OF ch full sels j k sel, of 10] show ?thesis
    by simp
qed

text \<open>
  Claim C2. For a stream that holds all \<open>height * (stride + 1)\<close> bytes and whose rows
  all have a selector from 0 to 4, \<open>decodeIDAT\<close> with 3 channels per pixel returns
  \<open>height * stride\<close> bytes, and in a scanline with filter selector 1 (Sub) the
  reconstructed byte at column \<open>k \<ge> 3\<close> is
  \<open>(filtered[k] + reconstructed[k - 3]) mod 256\<close> and at column \<open>k < 3\<close> it is
  \<open>filtered[k] mod 256\<close>.
\<close>

theorem sub_reconstruction:
  assumes full: "H * (L + 1) \<le> length stream"
    and sels: "\<forall>i<H. unat (stream ! (i * (L + 1))) \<le> 4"
    and j: "j < H" and k: "k < L" and sel: "stream ! (j * (L + 1)) = 1"
  shows "\<exists>out.
    decodeIDAT stream (Num (of_nat L)) (Num (of_nat H)) (Num 3) = Inr (map byte_num out) \<and>
    length out = H * L \<and>
    out ! (j * L + k) =
      (if 3 \<le> k then (unat (stream ! (j * (L + 1) + 1 + k)) + out ! (j * L + k - 3)) mod 256
       else unat (stream ! (j * (L + 1) + 1 + k)) mod 256)"
proof -
  from decodeIDAT_supported [OF supported_full [OF full sels]]
  obtain bs where dec: "decodeIDAT stream (Num (of_nat L)) (Num (of_nat H)) (Num 3) = Inr bs"
    by blast
  from sub_cell [OF dec full j k sel] dec show ?thesis by blast
qed

text \<open>
  One row of two pixels with three channels: column 3 holds \<open>(100 + 200) mod 256 = 44\<close>.
\<close>

theorem sub_reconstruction_witness:
  "\<exists>out.
    decodeIDAT sub_stream (Num (of_nat 6)) (Num (of_nat 1)) (Num 3) = Inr (map byte_num out) \<and>
    length out = 1 * 6 \<and>
    out ! (0 * 6 + 3) =
      (if (3::nat) \<le> 3
       then (unat (sub_stream ! (0 * (6 + 1) + 1 + 3)) + out ! (0 * 6 + 3 - 3)) mod 256
       else unat (sub_stream ! (0 * (6 + 1) + 1 + 3)) mod 256)"
proof -
  have full: "1 * (6 + 1) \<le> length sub_stream"
    by (simp add: sub_stream_def)
  have sels: "\<forall>i<1. unat (sub_stream ! (i * (6 + 1))) \<le> 4"
    by (simp add: sub_stream_def)
  have j: "(0::nat) < 1" and k: "(3::nat) < 6" by simp_all
  have sel: "sub_stream ! (0 * (6 + 1)) = 1"
    by (simp add: sub_stream_def)
  from sub_reconstruction [OF full sels j k sel] show ?thesis .
qed




section \<open>The result of read32\<close>

lemma ucast_u8: "(ucast (b :: u8) :: 32 word) = word_of_int (int (unat b))"
  by simp

lemma to_int32_u8: "to_int32 (num_of_u8 b) = word_of_int (int (unat b))"
  unfolding num_of_u8_def to_int32.simps trunc_of_nat by (rule refl)

lemma or_bytes:
  fixes b0 b1 b2 b3 :: u8
  shows "(push_bit 24 (ucast b0) OR push_bit 16 (ucast b1) OR push_bit 8 (ucast b2) OR ucast b3 :: 32 word)
    = push_bit 24 (ucast b0) + (push_bit 16 (ucast b1) + (push_bit 8 (ucast b2) + ucast b3))"
proof -
  have 1: "push_bit 8 (ucast b2) + ucast b3 = (push_bit 8 (ucast b2) OR ucast b3 :: 32 word)"
    by (rule disjunctive_add) (auto simp add: bit_simps dest: bit_imp_le_length)
  have 2: "push_bit 16 (ucast b1) + (push_bit 8 (ucast b2) OR ucast b3)
      = (push_bit 16 (ucast b1) OR (push_bit 8 (ucast b2) OR ucast b3) :: 32 word)"
    by (rule disjunctive_add) (auto simp add: bit_simps dest: bit_imp_le_length)
  have 3: "push_bit 24 (ucast b0) + (push_bit 16 (ucast b1) OR (push_bit 8 (ucast b2) OR ucast b3))
      = (push_bit 24 (ucast b0) OR (push_bit 16 (ucast b1) OR (push_bit 8 (ucast b2) OR ucast b3)) :: 32 word)"
    by (rule disjunctive_add) (auto simp add: bit_simps dest: bit_imp_le_length)
  show ?thesis
    by (simp only: 1 2 3 or.assoc)
qed

lemma sum_bytes:
  fixes b0 b1 b2 b3 :: u8
  shows "(push_bit 24 (ucast b0) + (push_bit 16 (ucast b1) + (push_bit 8 (ucast b2) + ucast b3)) :: 32 word)
    = word_of_int (int (unat b0) * 2 ^ 24 + int (unat b1) * 2 ^ 16 + int (unat b2) * 2 ^ 8 + int (unat b3))"
proof -
  have p: "(2 ^ n :: 32 word) = word_of_int (2 ^ n)" for n
    by simp
  show ?thesis
    unfolding ucast_u8 push_bit_eq_mult p wi_hom_mult wi_hom_add
    by (simp only: add.assoc)
qed

lemma sint_word_of_int_32:
  assumes "0 \<le> U" and "U < 2 ^ 32"
  shows "sint (word_of_int U :: 32 word) = (if U < 2 ^ 31 then U else U - 2 ^ 32)"
proof -
  have "sint (word_of_int U :: 32 word) = (U + 2 ^ 31) mod 2 ^ 32 - 2 ^ 31"
    by (simp add: int_word_sint)
  also have "\<dots> = (if U < 2 ^ 31 then U else U - 2 ^ 32)"
  proof (cases "U < 2 ^ 31")
    case True
    with assms have "(U + 2 ^ 31) mod 2 ^ 32 = U + 2 ^ 31"
      by (intro mod_pos_pos_trivial) simp_all
    with True show ?thesis by simp
  next
    case False
    with assms have "(U + 2 ^ 31 - 2 ^ 32) mod 2 ^ 32 = U + 2 ^ 31 - 2 ^ 32"
      by (intro mod_pos_pos_trivial) simp_all
    moreover have "(U + 2 ^ 31 - 2 ^ 32 + 2 ^ 32) mod 2 ^ 32 = (U + 2 ^ 31 - 2 ^ 32) mod (2 ^ 32 :: int)"
      by (rule mod_add_self2)
    then have "(U + 2 ^ 31) mod 2 ^ 32 = (U + 2 ^ 31 - 2 ^ 32) mod (2 ^ 32 :: int)"
      by (simp add: add.commute)
    ultimately show ?thesis using False by simp
  qed
  finally show ?thesis .
qed

lemma bytes_bound:
  fixes x0 x1 x2 x3 :: int
  assumes "0 \<le> x0" "x0 < 256" "0 \<le> x1" "x1 < 256" "0 \<le> x2" "x2 < 256" "0 \<le> x3" "x3 < 256"
  shows "0 \<le> x0 * 2 ^ 24 + x1 * 2 ^ 16 + x2 * 2 ^ 8 + x3"
    and "x0 * 2 ^ 24 + x1 * 2 ^ 16 + x2 * 2 ^ 8 + x3 < 2 ^ 32"
    and "x0 * 2 ^ 24 + x1 * 2 ^ 16 + x2 * 2 ^ 8 + x3 < 2 ^ 31 \<longleftrightarrow> x0 < 128"
  using assms by auto

text \<open>
  Claim C7, as the code has it. For four bytes \<open>b0, b1, b2, b3\<close> at position \<open>i\<close>,
  \<open>read32\<close> returns the big-endian composition read as a signed 32-bit integer: the
  unsigned value \<open>b0 * 2^24 + b1 * 2^16 + b2 * 2^8 + b3\<close> when \<open>b0 < 128\<close>, and that
  value minus \<open>2^32\<close>, a negative number, when \<open>b0 \<ge> 128\<close>.
\<close>

theorem read32_signed:
  fixes b0 b1 b2 b3 :: u8
  shows "read32 (pre @ [b0, b1, b2, b3] @ post) (int (length pre)) =
    (if unat b0 < 128
     then int (unat b0) * 2 ^ 24 + int (unat b1) * 2 ^ 16 + int (unat b2) * 2 ^ 8 + int (unat b3)
     else int (unat b0) * 2 ^ 24 + int (unat b1) * 2 ^ 16 + int (unat b2) * 2 ^ 8 + int (unat b3)
            - 2 ^ 32)"
proof -
  let ?arr = "pre @ [b0, b1, b2, b3] @ post"
  let ?U = "int (unat b0) * 2 ^ 24 + int (unat b1) * 2 ^ 16 + int (unat b2) * 2 ^ 8 + int (unat b3)"
  have g: "u8_get ?arr (Num (of_int (int (length pre) + int n))) = num_of_u8 ([b0, b1, b2, b3] ! n)"
    if "n < 4" for n
  proof -
    have "(of_int (int (length pre) + int n) :: rat) = of_nat (length pre + n)" by simp
    moreover have "?arr ! (length pre + n) = ([b0, b1, b2, b3] @ post) ! n"
      by (rule nth_append_length_plus)
    moreover have "([b0, b1, b2, b3] @ post) ! n = [b0, b1, b2, b3] ! n"
      using that by (simp only: nth_append) simp
    ultimately show ?thesis using that by (simp only: u8_get_nat) simp
  qed
  have g0: "u8_get ?arr (Num (of_int (int (length pre)))) = num_of_u8 b0"
    using g [of 0] by simp
  have g1: "u8_get ?arr (Num (of_int (int (length pre) + 1))) = num_of_u8 b1"
    using g [of 1] by simp
  have g2: "u8_get ?arr (Num (of_int (int (length pre) + 2))) = num_of_u8 b2"
    using g [of 2] by simp
  have g3: "u8_get ?arr (Num (of_int (int (length pre) + 3))) = num_of_u8 b3"
    using g [of 3] by simp
  have "read32 ?arr (int (length pre)) = sint (push_bit 24 (ucast b0) OR push_bit 16 (ucast b1)
      OR push_bit 8 (ucast b2) OR ucast b3 :: 32 word)"
    unfolding read32_def g0 g1 g2 g3 to_int32_u8 ucast_u8 by (rule refl)
  also have "\<dots> = sint (word_of_int ?U :: 32 word)"
    by (simp only: or_bytes sum_bytes)
  finally have r: "read32 ?arr (int (length pre)) = sint (word_of_int ?U :: 32 word)" .
  have b: "int (unat b0) < 256" "int (unat b1) < 256" "int (unat b2) < 256" "int (unat b3) < 256"
    using unsigned_less [of b0] unsigned_less [of b1] unsigned_less [of b2] unsigned_less [of b3]
    by simp_all
  have n: "0 \<le> int (unat b0)" "0 \<le> int (unat b1)" "0 \<le> int (unat b2)" "0 \<le> int (unat b3)"
    by simp_all
  note B = bytes_bound [OF n(1) b(1) n(2) b(2) n(3) b(3) n(4) b(4)]
  have "int (unat b0) < 128 \<longleftrightarrow> unat b0 < 128"
    by linarith
  with B(3) have "?U < 2 ^ 31 \<longleftrightarrow> unat b0 < 128"
    by (simp only:)
  with sint_word_of_int_32 [OF B(1,2)] r show ?thesis
    by (simp only:)
qed

text \<open>The length field \<open>FF FF FF F4\<close> after two other bytes: the result is \<open>-12\<close>.\<close>

theorem read32_signed_witness:
  "read32 ([137, 80] @ [255, 255, 255, 244] @ [73]) (int (length [137, 80 :: u8])) = - 12"
  using read32_signed [of "[137, 80]" 255 255 255 244 "[73]"] by simp

text \<open>
  The claim as it was stated fails for a first byte of 128: the unsigned value is
  \<open>2^31\<close>, the code returns \<open>- 2^31\<close>.
\<close>

theorem read32_unsigned_counterexample:
  "read32 [128, 0, 0, 0] 0 = - 2147483648 \<and>
   read32 [128, 0, 0, 0] 0 \<noteq> 128 * 2 ^ 24 + 0 * 2 ^ 16 + 0 * 2 ^ 8 + 0"
  by code_simp

section \<open>The totals and the mean\<close>

lemma add_pixel_prefix:
  assumes "n \<le> length p" and "length p \<le> length t"
  shows "fold (\<lambda>i t. arr_set t i (js_add (arr_get t i) (arr_get p i))) [0..<n] t
    = map (\<lambda>i. if i < n then js_add (t ! i) (p ! i) else t ! i) [0..<length t]"
  using assms(1)
proof (induction n)
  case 0
  then show ?case by (simp add: map_nth)
next
  case (Suc n)
  let ?t' = "map (\<lambda>i. if i < n then js_add (t ! i) (p ! i) else t ! i) [0..<length t]"
  from Suc.prems assms(2) have n: "n < length t" "n < length p" by simp_all
  have "fold (\<lambda>i t. arr_set t i (js_add (arr_get t i) (arr_get p i))) [0..<Suc n] t
      = arr_set ?t' n (js_add (arr_get ?t' n) (arr_get p n))"
    using Suc.IH Suc.prems by simp
  also have "\<dots> = ?t'[n := js_add (t ! n) (p ! n)]"
    using n by (simp add: arr_set_def arr_get_def)
  also have "\<dots> = map (\<lambda>i. if i < Suc n then js_add (t ! i) (p ! i) else t ! i) [0..<length t]"
    using n by (intro nth_equalityI) (auto simp add: nth_list_update less_Suc_eq)
  finally show ?case .
qed

lemma add_pixel_map:
  assumes "length p \<le> length t"
  shows "add_pixel p t = map (\<lambda>i. if i < length p then js_add (t ! i) (p ! i) else t ! i) [0..<length t]"
  unfolding add_pixel_def by (rule add_pixel_prefix [OF le_refl assms])

lemma length_add_pixel: "length p \<le> length t \<Longrightarrow> length (add_pixel p t) = length t"
  by (simp add: add_pixel_map)

lemma totals_numeric:
  assumes "\<forall>p \<in> set ps. numeric_pixel p"
  shows "fold add_pixel ps (map (\<lambda>c. Num (s c)) [0..<4])
    = map (\<lambda>c. Num (s c + channel_sum ps c)) [0..<4]"
  using assms
proof (induction ps arbitrary: s)
  case Nil
  then show ?case by (simp add: channel_sum_def)
next
  case (Cons p ps)
  from Cons.prems have p: "length p \<le> 4" "\<And>i. i < length p \<Longrightarrow> \<exists>r. p ! i = Num r"
    by (auto simp add: numeric_pixel_def)
  have "add_pixel p (map (\<lambda>c. Num (s c)) [0..<4])
      = map (\<lambda>c. Num (s c + num_val (arr_get p c))) [0..<4]"
  proof (rule nth_equalityI)
    show "length (add_pixel p (map (\<lambda>c. Num (s c)) [0..<4]))
        = length (map (\<lambda>c. Num (s c + num_val (arr_get p c))) [0..<4])"
      using p(1) by (simp add: length_add_pixel)
  next
    fix i assume "i < length (add_pixel p (map (\<lambda>c. Num (s c)) [0..<4]))"
    then have i: "i < 4" using p(1) by (simp add: length_add_pixel)
    show "add_pixel p (map (\<lambda>c. Num (s c)) [0..<4]) ! i
        = map (\<lambda>c. Num (s c + num_val (arr_get p c))) [0..<4] ! i"
    proof (cases "i < length p")
      case True
      with p(2) obtain r where "p ! i = Num r" by blast
      with True i p(1) show ?thesis
        by (simp add: add_pixel_map arr_get_def num_val_def del: upt_Suc)
    next
      case False
      with i p(1) show ?thesis
        by (simp add: add_pixel_map arr_get_def num_val_def del: upt_Suc)
    qed
  qed
  then have "fold add_pixel (p # ps) (map (\<lambda>c. Num (s c)) [0..<4])
      = fold add_pixel ps (map (\<lambda>c. Num (s c + num_val (arr_get p c))) [0..<4])"
    by simp
  also have "\<dots> = map (\<lambda>c. Num (s c + num_val (arr_get p c) + channel_sum ps c)) [0..<4]"
    using Cons.prems by (intro Cons.IH) simp
  finally show ?case
    by (simp add: channel_sum_def add.assoc)
qed

lemma for_lt_4: "for_lt 0 (Num 4) body s = body 3 (body 2 (body 1 (body 0 s)))"
  using for_lt_fold [of 4 body s] by (simp add: numeral_eq_Suc)

lemma mean_of_4:
  assumes "fold add_pixel (data img) [Num 0, Num 0, Num 0, Num 0] = [t0, t1, t2, t3]"
  shows "mean_of img = map (\<lambda>t. js_round (js_div t (Num (of_nat (length (data img)))))) [t0, t1, t2, t3]"
  unfolding mean_of_def Let_def assms for_lt_4
  by (simp add: arr_set_def arr_get_def)

lemma mean_resolved:
  "decode max_args inflate download = Some (Resolved img) \<Longrightarrow>
   mean max_args inflate download = Some (Resolved (mean_of img))"
  by (simp add: mean_def)

lemma mean_of_numeric:
  assumes ne: "data img \<noteq> []" and num: "\<forall>p \<in> set (data img). numeric_pixel p"
  shows "mean_of img =
    map (\<lambda>c. Num (of_int (round (channel_sum (data img) c / of_nat (length (data img)))))) [0..<4]"
proof -
  have z: "[Num 0, Num 0, Num 0, Num 0] = map (\<lambda>c. Num ((\<lambda>c. 0) c)) [0..<4]"
    by (simp add: numeral_eq_Suc)
  have "fold add_pixel (data img) [Num 0, Num 0, Num 0, Num 0]
      = map (\<lambda>c. Num (0 + channel_sum (data img) c)) [0..<4]"
    unfolding z by (rule totals_numeric [OF num])
  also have "\<dots> = [Num (channel_sum (data img) 0), Num (channel_sum (data img) 1),
      Num (channel_sum (data img) 2), Num (channel_sum (data img) 3)]"
    by (simp add: numeral_eq_Suc)
  finally have t: "fold add_pixel (data img) [Num 0, Num 0, Num 0, Num 0]
      = [Num (channel_sum (data img) 0), Num (channel_sum (data img) 1),
         Num (channel_sum (data img) 2), Num (channel_sum (data img) 3)]" .
  have n: "(of_nat (length (data img)) :: rat) \<noteq> 0"
    using ne by simp
  have r: "js_round (js_div (Num x) (Num (of_nat (length (data img)))))
      = Num (of_int (round (x / of_nat (length (data img)))))" for x
    using n by (simp add: round_def)
  show ?thesis
    unfolding mean_of_4 [OF t] by (simp add: r numeral_eq_Suc del: js_div.simps js_round.simps)
qed

text \<open>
  Claim C5, as the code has it. For a decoded image with at least one pixel, whose pixels
  have at most four entries, all of them numbers, \<open>mean\<close> resolves with four numbers:
  component \<open>c\<close> is the sum of entry \<open>c\<close> over all pixels (an absent entry counts 0),
  divided by the number of pixels and rounded to the nearest integer. A rejection of
  \<open>decode\<close> is the rejection of \<open>mean\<close>.
\<close>

theorem mean_rounded_average:
  "(decode max_args inflate download = Some (Resolved img) \<longrightarrow> data img \<noteq> [] \<longrightarrow>
      (\<forall>p \<in> set (data img). numeric_pixel p) \<longrightarrow>
      mean max_args inflate download = Some (Resolved
        (map (\<lambda>c. Num (of_int (round (channel_sum (data img) c / of_nat (length (data img))))))
           [0..<4]))) \<and>
   (decode max_args inflate download = Some (Rejected e) \<longrightarrow> mean max_args inflate download = Some (Rejected e))"
proof (intro conjI impI)
  assume "decode max_args inflate download = Some (Resolved img)" and "data img \<noteq> []"
    and "\<forall>p \<in> set (data img). numeric_pixel p"
  then show "mean max_args inflate download = Some (Resolved
      (map (\<lambda>c. Num (of_int (round (channel_sum (data img) c / of_nat (length (data img))))))
         [0..<4]))"
    by (simp add: mean_resolved mean_of_numeric del: upt_Suc)
next
  assume "decode max_args inflate download = Some (Rejected e)"
  then show "mean max_args inflate download = Some (Rejected e)"
    by (simp add: mean_def)
qed

text \<open>
  A file of one row with the pixels \<open>[10,20,30,255]\<close> and \<open>[20,30,40,255]\<close>; the
  identity stands for \<open>pako.inflate\<close>, so the payload of the data chunk is the
  decompressed stream itself. The mean is \<open>[15,25,35,255]\<close>.
\<close>

theorem mean_rounded_average_witness:
  "decode 65535 Some (Some two_pixel_png) = Some (Resolved two_pixel_image) \<and>
   mean 65535 Some (Some two_pixel_png) = Some (Resolved [Num 15, Num 25, Num 35, Num 255])"
proof -
  have dec: "decode 65535 Some (Some two_pixel_png) = Some (Resolved two_pixel_image)"
    by code_simp
  have ne: "data two_pixel_image \<noteq> []"
    by (simp add: two_pixel_image_def)
  have num: "\<forall>p \<in> set (data two_pixel_image). numeric_pixel p"
    by (simp add: two_pixel_image_def numeric_pixel_def)
  have val: "map (\<lambda>c. Num (of_int (round (channel_sum (data two_pixel_image) c
        / of_nat (length (data two_pixel_image)))))) [0..<4]
      = [Num 15, Num 25, Num 35, Num 255]"
    by code_simp
  from mean_rounded_average [of 65535 Some "Some two_pixel_png" two_pixel_image] dec ne num
  have "mean 65535 Some (Some two_pixel_png) = Some (Resolved
      (map (\<lambda>c. Num (of_int (round (channel_sum (data two_pixel_image) c
        / of_nat (length (data two_pixel_image)))))) [0..<4]))"
    by blast
  with val dec show ?thesis by simp
qed

section \<open>The chunk walk\<close>

lemma chunk_loop_result:
  assumes run: "chunk_loop max_args inflate png st = Some r" and init: "I st"
    and pres: "preserved I max_args inflate png"
  shows "ends_in I max_args inflate png r"
proof -
  define P where
    "P = (\<lambda>m inflate png st r. I st \<longrightarrow> preserved I m inflate png \<longrightarrow> ends_in I m inflate png r)"
  have "P max_args inflate png st r"
  proof (rule chunk_loop.raw_induct [of P, OF _ run])
    fix loop :: "int \<Rightarrow> (u8 list \<Rightarrow> u8 list option) \<Rightarrow> u8 list \<Rightarrow> walker \<Rightarrow> step option"
      and m inflate png st r
    assume IH: "\<And>m inflate png st r. loop m inflate png st = Some r \<Longrightarrow> P m inflate png st r"
      and eq: "(if cursor st < int (length png)
          then case chunk_step m inflate png st of
                 Continue st' \<Rightarrow> loop m inflate png st'
               | Return st' \<Rightarrow> Some (Return st')
               | Throw st' \<Rightarrow> Some (Throw st')
          else Some (Continue st)) = Some r"
    show "P m inflate png st r"
      unfolding P_def
    proof (intro impI)
      assume I: "I st" and pres: "preserved I m inflate png"
      show "ends_in I m inflate png r"
      proof (cases "cursor st < int (length png)")
        case False
        with eq have "r = Continue st" by simp
        with False I show ?thesis unfolding ends_in_def by blast
      next
        case True
        show ?thesis
        proof (cases "chunk_step m inflate png st")
          case (Continue st')
          with True eq have "loop m inflate png st' = Some r" by simp
          from IH [OF this] have "P m inflate png st' r" .
          moreover from pres I True Continue have "I st'"
            unfolding preserved_def by blast
          ultimately show ?thesis using pres unfolding P_def by blast
        next
          case (Return st')
          with True eq have "r = chunk_step m inflate png st" by simp
          with True Return I show ?thesis unfolding ends_in_def by auto
        next
          case (Throw st')
          with True eq have "r = chunk_step m inflate png st" by simp
          with True Throw I show ?thesis unfolding ends_in_def by auto
        qed
      qed
    qed
  qed
  with init pres show ?thesis unfolding P_def by blast
qed

lemma chunk_step_image:
  assumes "chunk_step max_args inflate png s = Continue s'"
  shows "image s' = image s \<or>
    (js_eq (color (image s')) 6 \<and> channels (image s') = Num 4) \<or>
    (js_eq (color (image s')) 2 \<and> channels (image s') = Num 3) \<or>
    (js_eq (color (image s')) 3 \<and> channels (image s') = Undefined)"
  using assms
  by (auto simp add: chunk_step_def Let_def call_reject_def
      split: if_splits option.splits sum.splits)

lemma js_eq_Num: "js_eq v c \<longleftrightarrow> v = Num c"
  by (cases v) auto

lemma truecolor_preserved: "preserved truecolor_inv max_args inflate png"
  unfolding preserved_def truecolor_inv_def
proof (intro allI impI)
  fix s s'
  assume inv: "color (image s) = Num 2 \<longrightarrow> channels (image s) = Num 3"
    and st: "chunk_step max_args inflate png s = Continue s'" and c: "color (image s') = Num 2"
  from chunk_step_image [OF st] inv c show "channels (image s') = Num 3"
    by (auto simp add: js_eq_Num)
qed

lemma decode_resolved:
  assumes "decode max_args inflate download = Some (Resolved img)" and "I initial_walker"
    and "\<And>png. preserved I max_args inflate png"
  shows "\<exists>s. I s \<and> settled s = None \<and>
    img = (image s)\<lparr>data := group_pixels (pixels s) (channels (image s))\<rparr>"
proof -
  from assms(1) obtain png r where
    run: "chunk_loop max_args inflate png initial_walker = Some r" and r: "settle r = Resolved img"
    by (auto simp add: decode_def split: option.splits if_splits)
  from chunk_loop_result [OF run assms(2) assms(3)]
  obtain s where s: "I s" and cases: "r = Continue s \<or> (\<forall>s'. r \<noteq> Continue s')"
    unfolding ends_in_def by blast
  from r have "\<exists>s'. r = Continue s'"
    by (cases r) (auto simp add: abandoned_def split: option.splits)
  with cases have "r = Continue s" by blast
  with r s show ?thesis
    by (auto simp add: respond_def split: option.splits)
qed

lemma for_lt_push_set:
  "set (for_lt k n (\<lambda>i acc. acc @ [f i]) acc) \<subseteq> set acc \<union> range f"
proof (induction k n "\<lambda>i (acc :: 'a list). acc @ [f i]" acc rule: for_lt.induct)
  case (1 k n acc)
  show ?case
  proof (cases "js_lt (Num (of_int k)) n")
    case True
    with "1.hyps" [OF True] show ?thesis
      by (subst for_lt.simps) auto
  next
    case False
    then show ?thesis by (subst for_lt.simps) simp
  qed
qed

lemma length_row_3: "length (for_lt 0 (Num 3) (\<lambda>j row. row @ [g j]) []) = 3"
  using for_lt_fold [of 3 "\<lambda>j row. row @ [g j]" "[]"] by (simp add: numeral_eq_Suc)

lemma group_pixels_3: "p \<in> set (group_pixels pxs (Num 3)) \<Longrightarrow> length p = 3"
proof -
  assume "p \<in> set (group_pixels pxs (Num 3))"
  with for_lt_push_set [of 0 "js_div (Num (of_nat (length pxs))) (Num 3)"
      "\<lambda>i. for_lt 0 (Num 3)
         (\<lambda>j row. row @ [js_get pxs (js_add (js_mul (Num (of_int i)) (Num 3)) (Num (of_int j)))]) []"
      "[]"]
  obtain i where "p = for_lt 0 (Num 3)
      (\<lambda>j row. row @ [js_get pxs (js_add (js_mul (Num (of_int i)) (Num 3)) (Num (of_int j)))]) []"
    unfolding group_pixels_def by auto
  then show ?thesis by (simp only: length_row_3)
qed

lemma totals_alpha:
  assumes "\<forall>p \<in> set ps. length p = 3" and "length t = 4"
  shows "length (fold add_pixel ps t) = 4 \<and> fold add_pixel ps t ! 3 = t ! 3"
  using assms
proof (induction ps arbitrary: t)
  case Nil
  then show ?case by simp
next
  case (Cons p ps)
  then have p: "length p = 3" by simp
  with Cons.prems(2) have "length (add_pixel p t) = 4" and "add_pixel p t ! 3 = t ! 3"
    by (simp_all add: add_pixel_map del: upt_Suc)
  with Cons.IH [of "add_pixel p t"] Cons.prems(1) show ?case by simp
qed

lemma js_round_zero: "n \<noteq> 0 \<Longrightarrow> js_round (js_div (Num 0) (Num n)) = Num 0"
proof -
  have "\<lfloor>1 / 2 :: rat\<rfloor> = 0"
    by (rule floor_unique) simp_all
  then show "n \<noteq> 0 \<Longrightarrow> js_round (js_div (Num 0) (Num n)) = Num 0"
    by simp
qed

lemma list4: "length xs = 4 \<Longrightarrow> xs = [xs ! 0, xs ! 1, xs ! 2, xs ! 3]"
  by (rule nth_equalityI) (auto simp add: nth_Cons' numeral_eq_Suc less_Suc_eq)

text \<open>
  Claim C9, as the code has it. In the revision that accepts color type 2, a resolved
  image of color type 2 has pixels of three entries (no alpha is synthesized), and for
  such an image with at least one pixel the alpha component returned by \<open>mean\<close> is 0:
  the alpha total is never touched and 0 divided by the pixel count rounds to 0.
\<close>

theorem truecolor_mean_alpha:
  "decode max_args inflate download = Some (Resolved img) \<longrightarrow> color img = Num 2 \<longrightarrow>
     (\<forall>p \<in> set (data img). length p = 3) \<and>
     (data img \<noteq> [] \<longrightarrow> (\<exists>r g b. mean max_args inflate download = Some (Resolved [r, g, b, Num 0])))"
proof (intro impI)
  assume dec: "decode max_args inflate download = Some (Resolved img)" and col: "color img = Num 2"
  have "truecolor_inv initial_walker"
    by (simp add: truecolor_inv_def initial_walker_def empty_image_def)
  from decode_resolved [OF dec this truecolor_preserved]
  obtain s where inv: "truecolor_inv s"
    and img: "img = (image s)\<lparr>data := group_pixels (pixels s) (channels (image s))\<rparr>"
    by blast
  from img col inv have "data img = group_pixels (pixels s) (Num 3)"
    by (simp add: truecolor_inv_def)
  then have three: "\<forall>p \<in> set (data img). length p = 3"
    by (simp add: group_pixels_3)
  have alpha: "\<exists>r g b. mean max_args inflate download = Some (Resolved [r, g, b, Num 0])"
    if ne: "data img \<noteq> []"
  proof -
    let ?t = "fold add_pixel (data img) [Num 0, Num 0, Num 0, Num 0]"
    from totals_alpha [OF three, of "[Num 0, Num 0, Num 0, Num 0]"]
    have len: "length ?t = 4" and a: "?t ! 3 = Num 0" by simp_all
    from list4 [OF len] a have t: "?t = [?t ! 0, ?t ! 1, ?t ! 2, Num 0]" by simp
    have n: "(of_nat (length (data img)) :: rat) \<noteq> 0"
      using ne by simp
    have "mean_of img = map (\<lambda>t. js_round (js_div t (Num (of_nat (length (data img))))))
        [?t ! 0, ?t ! 1, ?t ! 2, Num 0]"
      by (rule mean_of_4 [OF t])
    also have "\<dots> = [js_round (js_div (?t ! 0) (Num (of_nat (length (data img))))),
        js_round (js_div (?t ! 1) (Num (of_nat (length (data img))))),
        js_round (js_div (?t ! 2) (Num (of_nat (length (data img))))), Num 0]"
      using js_round_zero [OF n] by (simp del: js_div.simps js_round.simps)
    finally show ?thesis
      using mean_resolved [OF dec] by simp
  qed
  from three alpha
  show "(\<forall>p \<in> set (data img). length p = 3) \<and>
     (data img \<noteq> [] \<longrightarrow> (\<exists>r g b. mean max_args inflate download = Some (Resolved [r, g, b, Num 0])))"
    by blast
qed

text \<open>
  A file of color type 2 with one row of two pixels, the identity standing for
  \<open>pako.inflate\<close>: the pixels have three entries and the mean is \<open>[15,25,35,0]\<close>.
\<close>

theorem truecolor_mean_alpha_witness:
  "decode 65535 Some (Some truecolor_png) = Some (Resolved truecolor_image) \<and>
   color truecolor_image = Num 2 \<and>
   (\<exists>r g b. mean 65535 Some (Some truecolor_png) = Some (Resolved [r, g, b, Num 0]))"
proof -
  have dec: "decode 65535 Some (Some truecolor_png) = Some (Resolved truecolor_image)"
    by code_simp
  have col: "color truecolor_image = Num 2" and ne: "data truecolor_image \<noteq> []"
    by (simp_all add: truecolor_image_def)
  from truecolor_mean_alpha [of 65535 Some "Some truecolor_png" truecolor_image] dec col ne
  show ?thesis by blast
qed

text \<open>
  The claim as it was stated fails for a file of color type 2 that ends after its
  header: \<open>decode\<close> resolves with an empty pixel sequence and the alpha component of
  the mean is \<open>NaN\<close>, not 0.
\<close>

theorem truecolor_mean_alpha_counterexample:
  "\<forall>max_args inflate.
     decode max_args inflate (Some (header_png 8 2)) = Some (Resolved
       \<lparr>width = Num 2, height = Num 1, depth = Num 8, color = Num 2, channels = Num 3, data = []\<rparr>) \<and>
     mean max_args inflate (Some (header_png 8 2)) = Some (Resolved [NaN, NaN, NaN, NaN])"
  by (intro allI) code_simp

text \<open>
  The claim as it was stated fails on two decoded images. A file that ends after its
  header resolves with no pixels, and every component of the mean is \<open>NaN\<close>. A file
  whose decompressed stream lacks the last two samples resolves with \<open>NaN\<close> entries in
  its last pixel, and the components of the mean that sum them are \<open>NaN\<close>.
\<close>

theorem mean_rounded_average_counterexample:
  "(\<forall>max_args inflate.
      decode max_args inflate (Some (header_png 8 6)) = Some (Resolved
        \<lparr>width = Num 2, height = Num 1, depth = Num 8, color = Num 6, channels = Num 4, data = []\<rparr>) \<and>
      mean max_args inflate (Some (header_png 8 6)) = Some (Resolved [NaN, NaN, NaN, NaN])) \<and>
   decode 65535 Some (Some (header_png 8 6 @ chunk [0, 0, 0, 7] IDAT [0, 10, 20, 30, 255, 20, 30]
       @ chunk [0, 0, 0, 0] IEND [])) = Some (Resolved
     \<lparr>width = Num 2, height = Num 1, depth = Num 8, color = Num 6, channels = Num 4,
        data = [[Num 10, Num 20, Num 30, Num 255], [Num 20, Num 30, NaN, NaN]]\<rparr>) \<and>
   mean 65535 Some (Some (header_png 8 6 @ chunk [0, 0, 0, 7] IDAT [0, 10, 20, 30, 255, 20, 30]
       @ chunk [0, 0, 0, 0] IEND [])) = Some (Resolved [Num 15, Num 25, NaN, NaN])"
proof (intro conjI allI)
  fix max_args :: int and inflate :: "u8 list \<Rightarrow> u8 list option"
  show "decode max_args inflate (Some (header_png 8 6)) = Some (Resolved
        \<lparr>width = Num 2, height = Num 1, depth = Num 8, color = Num 6, channels = Num 4, data = []\<rparr>)"
    by code_simp
  show "mean max_args inflate (Some (header_png 8 6)) = Some (Resolved [NaN, NaN, NaN, NaN])"
    by code_simp
next
  show "decode 65535 Some (Some (header_png 8 6 @ chunk [0, 0, 0, 7] IDAT [0, 10, 20, 30, 255, 20, 30]
       @ chunk [0, 0, 0, 0] IEND [])) = Some (Resolved
     \<lparr>width = Num 2, height = Num 1, depth = Num 8, color = Num 6, channels = Num 4,
        data = [[Num 10, Num 20, Num 30, Num 255], [Num 20, Num 30, NaN, NaN]]\<rparr>)"
    by code_simp
  show "mean 65535 Some (Some (header_png 8 6 @ chunk [0, 0, 0, 7] IDAT [0, 10, 20, 30, 255, 20, 30]
       @ chunk [0, 0, 0, 0] IEND [])) = Some (Resolved [Num 15, Num 25, NaN, NaN])"
    by code_simp
qed

lemma mean_of_empty: "data img = [] \<Longrightarrow> mean_of img = [NaN, NaN, NaN, NaN]"
proof -
  assume e: "data img = []"
  then have t: "fold add_pixel (data img) [Num 0, Num 0, Num 0, Num 0] = [Num 0, Num 0, Num 0, Num 0]"
    by simp
  show ?thesis
    unfolding mean_of_4 [OF t] by (simp add: e)
qed

text \<open>
  Claim C8. \<open>mean\<close> divides each total by \<open>image.data.length\<close> without a guard. For a
  resolved image with an empty pixel sequence each division is \<open>0 / 0\<close>, and \<open>mean\<close>
  resolves with four \<open>NaN\<close>, none of which is a byte.
\<close>

theorem mean_empty_image:
  assumes "decode max_args inflate download = Some (Resolved img)" and "data img = []"
  shows "mean max_args inflate download = Some (Resolved [NaN, NaN, NaN, NaN]) \<and>
    (\<forall>v \<in> set [NaN, NaN, NaN, NaN]. \<not> is_byte v)"
  using assms by (simp add: mean_resolved mean_of_empty is_byte_def byte_num_def)

text \<open>
  A complete file whose header declares width 0 and height 1, the identity standing for
  \<open>pako.inflate\<close>.
\<close>

theorem mean_empty_image_witness:
  "decode 65535 Some (Some zero_width_png) = Some (Resolved zero_width_image) \<and>
   data zero_width_image = [] \<and>
   mean 65535 Some (Some zero_width_png) = Some (Resolved [NaN, NaN, NaN, NaN])"
proof -
  have dec: "decode 65535 Some (Some zero_width_png) = Some (Resolved zero_width_image)"
    by code_simp
  have e: "data zero_width_image = []"
    by (simp add: zero_width_image_def)
  from mean_empty_image [OF dec e] dec e show ?thesis by blast
qed


section \<open>Header, truncated and palette chunks\<close>

lemma subarray_nat:
  assumes "a \<le> b"
  shows "subarray xs (Num (of_int (int a))) (Num (of_int (int b))) = take (b - a) (drop a xs)"
proof -
  have "subarray xs (Num (of_int (int a))) (Num (of_int (int b)))
      = take (min b (length xs) - min a (length xs)) (drop (min a (length xs)) xs)"
    unfolding subarray_def Let_def to_integer.simps of_int_of_nat_eq trunc_of_nat rel_index_nat
    by (rule refl)
  also have "\<dots> = take (b - a) (drop a xs)"
    by (rule take_drop_clamp [OF assms])
  finally show ?thesis .
qed

lemma subarray_window:
  assumes "a \<le> b" and "b \<le> length xs"
  shows "subarray (pre @ xs @ post) (Num (of_int (int (length pre) + int a)))
           (Num (of_int (int (length pre) + int b))) = take (b - a) (drop a xs)"
proof -
  have "subarray (pre @ xs @ post) (Num (of_int (int (length pre + a))))
      (Num (of_int (int (length pre + b)))) = take (length pre + b - (length pre + a))
        (drop (length pre + a) (pre @ xs @ post))"
    by (rule subarray_nat) (simp add: assms)
  also have "\<dots> = take (b - a) (drop a xs)"
    using assms by simp
  finally show ?thesis by simp
qed

lemma u8_get_window:
  assumes "n < length xs"
  shows "u8_get (pre @ xs @ post) (Num (of_int (int (length pre) + int n))) = num_of_u8 (xs ! n)"
proof -
  have "u8_get (pre @ xs @ post) (Num (of_nat (length pre + n)))
      = num_of_u8 ((pre @ xs @ post) ! (length pre + n))"
    using assms by (simp only: u8_get_nat) simp
  also have "(pre @ xs @ post) ! (length pre + n) = xs ! n"
    using assms by (simp add: nth_append)
  finally show ?thesis by simp
qed

lemma js_eq_u8: "js_eq (num_of_u8 w) (of_nat n) \<longleftrightarrow> unat w = n"
  unfolding num_of_u8_def js_eq.simps by (rule of_nat_eq_iff)

lemma js_eq_u8_1: "js_eq (num_of_u8 w) 1 \<longleftrightarrow> w = 1"
proof -
  have "js_eq (num_of_u8 w) 1 \<longleftrightarrow> unat w = 1"
    using js_eq_u8 [of w 1] by simp
  also have "\<dots> \<longleftrightarrow> w = 1"
    by (metis unat_1 word_unat_eq_iff)
  finally show ?thesis .
qed

text \<open>
  Claim C3, as the code has it. Neither revision checks the bit depth. In both, a
  header chunk with color type 6 and an interlace byte other than 1 is accepted
  whatever bit depth it declares: the depth is written to the image record, \<open>reject\<close>
  is not called, and the walk goes on with the next chunk. The revision that accepts
  color type 2 does the same for a header of color type 2.
\<close>

theorem header_depth_unchecked:
  fixes d c il :: u8
  assumes png: "png = pre @ ([l0, l1, l2, l3] @ IHDR
        @ [w0, w1, w2, w3, h0, h1, h2, h3, d, c, cm, fm, il]) @ post"
    and cur: "cursor st = int (length pre)" and il: "il \<noteq> 1"
  shows "(c = 6 \<longrightarrow>
      (\<exists>st'. chunk_step max_args inflate png st = Continue st' \<and>
         depth (image st') = Num (of_nat (unat d)) \<and> settled st' = settled st \<and>
         cursor st' = cursor st + (read32 png (cursor st) + 12)) \<and>
      (\<exists>st'. chunk_step_index max_args inflate png st = Continue st' \<and>
         depth (image st') = Num (of_nat (unat d)) \<and> settled st' = settled st \<and>
         cursor st' = cursor st + (read32 png (cursor st) + 12))) \<and>
    (c = 2 \<longrightarrow>
      (\<exists>st'. chunk_step max_args inflate png st = Continue st' \<and>
         depth (image st') = Num (of_nat (unat d)) \<and> settled st' = settled st \<and>
         cursor st' = cursor st + (read32 png (cursor st) + 12)))"
proof -
  let ?body = "[l0, l1, l2, l3] @ IHDR @ [w0, w1, w2, w3, h0, h1, h2, h3, d, c, cm, fm, il]"
  have tag: "subarray png (Num (of_int (cursor st + 4))) (Num (of_int (cursor st + 8))) = IHDR"
    unfolding png cur using subarray_window [of 4 8 ?body pre post]
    by (simp add: IHDR_def)
  have dp: "u8_get png (Num (of_int (cursor st + 16))) = num_of_u8 d"
    unfolding png cur using u8_get_window [of 16 ?body pre post]
    by (simp add: IHDR_def)
  have cl: "u8_get png (Num (of_int (cursor st + 17))) = num_of_u8 c"
    unfolding png cur using u8_get_window [of 17 ?body pre post]
    by (simp add: IHDR_def)
  have ilb: "u8_get png (Num (of_int (cursor st + 20))) = num_of_u8 il"
    unfolding png cur using u8_get_window [of 20 ?body pre post]
    by (simp add: IHDR_def)
  have not1: "\<not> js_eq (num_of_u8 il) 1"
    using il by (simp add: js_eq_u8_1)
  have six: "\<exists>st'. chunk_step max_args inflate png st = Continue st' \<and>
         depth (image st') = Num (of_nat (unat d)) \<and> settled st' = settled st \<and>
         cursor st' = cursor st + (read32 png (cursor st) + 12)"
    and six': "\<exists>st'. chunk_step_index max_args inflate png st = Continue st' \<and>
         depth (image st') = Num (of_nat (unat d)) \<and> settled st' = settled st \<and>
         cursor st' = cursor st + (read32 png (cursor st) + 12)"
    if "c = 6"
  proof -
    from that have c: "num_of_u8 c = Num 6"
      by (simp add: num_of_u8_def)
    show "\<exists>st'. chunk_step max_args inflate png st = Continue st' \<and>
         depth (image st') = Num (of_nat (unat d)) \<and> settled st' = settled st \<and>
         cursor st' = cursor st + (read32 png (cursor st) + 12)"
      unfolding chunk_step_def Let_def tag dp cl ilb c
      using not1 by (simp add: num_of_u8_def)
    show "\<exists>st'. chunk_step_index max_args inflate png st = Continue st' \<and>
         depth (image st') = Num (of_nat (unat d)) \<and> settled st' = settled st \<and>
         cursor st' = cursor st + (read32 png (cursor st) + 12)"
      unfolding chunk_step_index_def Let_def tag dp cl ilb c
      using not1 by (simp add: num_of_u8_def)
  qed
  have two: "\<exists>st'. chunk_step max_args inflate png st = Continue st' \<and>
         depth (image st') = Num (of_nat (unat d)) \<and> settled st' = settled st \<and>
         cursor st' = cursor st + (read32 png (cursor st) + 12)"
    if "c = 2"
  proof -
    from that have c: "num_of_u8 c = Num 2"
      by (simp add: num_of_u8_def)
    show ?thesis
      unfolding chunk_step_def Let_def tag dp cl ilb c
      using not1 by (simp add: num_of_u8_def)
  qed
  from six six' two show ?thesis by blast
qed

text \<open>The header of a file that declares 16 bits per sample, at the start of the walk.\<close>

theorem header_depth_unchecked_witness:
  "(\<exists>st'. chunk_step 65535 Some (header_png 16 6) initial_walker = Continue st' \<and>
      depth (image st') = Num (of_nat (unat (16 :: u8))) \<and> settled st' = settled initial_walker \<and>
      cursor st' = cursor initial_walker + (read32 (header_png 16 6) (cursor initial_walker) + 12)) \<and>
   (\<exists>st'. chunk_step_index 65535 Some (header_png 16 6) initial_walker = Continue st' \<and>
      depth (image st') = Num (of_nat (unat (16 :: u8))) \<and> settled st' = settled initial_walker \<and>
      cursor st' = cursor initial_walker + (read32 (header_png 16 6) (cursor initial_walker) + 12))"
proof -
  have png: "header_png 16 6 = signature @ ([0, 0, 0, 13] @ IHDR
        @ [0, 0, 0, 2, 0, 0, 0, 1, 16, 6, 0, 0, 0]) @ [0, 0, 0, 0]"
    by (simp add: header_png_def chunk_def)
  have cur: "cursor initial_walker = int (length signature)"
    by (simp add: initial_walker_def signature_def)
  have il: "(0 :: u8) \<noteq> 1" by simp
  from header_depth_unchecked [OF png cur il, of 65535 Some] show ?thesis
    by simp
qed

text \<open>
  The claim as it was stated fails on a file that declares 16 bits per sample and ends
  after its header: in both revisions \<open>decode\<close> resolves, with the depth 16 in the
  record.
\<close>

theorem header_depth_counterexample:
  "\<forall>max_args inflate.
     decode max_args inflate (Some (header_png 16 6)) = Some (Resolved
       \<lparr>width = Num 2, height = Num 1, depth = Num 16, color = Num 6, channels = Num 4,
          data = []\<rparr>) \<and>
     decode_index max_args inflate (Some (header_png 16 6)) = Some (Resolved
       \<lparr>width = Num 2, height = Num 1, depth = Num 16, color = Num 6, channels = Undefined,
          data = []\<rparr>)"
  by (intro allI) code_simp

lemma chunk_step_cursor:
  "chunk_step max_args inflate png st = Continue st' \<Longrightarrow>
   cursor st' = cursor st + (read32 png (cursor st) + 12)"
  by (auto simp add: chunk_step_def Let_def call_reject_def
      split: if_splits option.splits sum.splits)

lemma chunk_step_index_cursor:
  "chunk_step_index max_args inflate png st = Continue st' \<Longrightarrow>
   cursor st' = cursor st + (read32 png (cursor st) + 12)"
  by (auto simp add: chunk_step_index_def Let_def call_reject_def
      split: if_splits option.splits sum.splits)

lemma chunk_step_unchecked:
  assumes "tag_at png (cursor st) \<noteq> IHDR" and "tag_at png (cursor st) \<noteq> IEND"
    and "tag_at png (cursor st) = IDAT \<longrightarrow> int (length (payload_at png (cursor st))) \<le> max_args"
  shows "\<exists>st'. chunk_step max_args inflate png st = Continue st' \<and> settled st' = settled st"
  using assms by (auto simp add: chunk_step_def Let_def tag_at_def payload_at_def)

lemma chunk_step_index_unchecked:
  assumes "tag_at png (cursor st) \<noteq> IHDR" and "tag_at png (cursor st) \<noteq> PLTE"
    and "tag_at png (cursor st) \<noteq> IEND"
    and "tag_at png (cursor st) = IDAT \<longrightarrow> int (length (payload_at png (cursor st))) \<le> max_args"
  shows "\<exists>st'. chunk_step_index max_args inflate png st = Continue st' \<and> settled st' = settled st"
  using assms by (auto simp add: chunk_step_index_def Let_def tag_at_def payload_at_def)

lemma last_turn:
  assumes "cursor st < int (length png)"
    and "int (length png) \<le> cursor st + (read32 png (cursor st) + 12)"
  shows "chunk_loop max_args inflate png st = Some (chunk_step max_args inflate png st)"
proof (cases "chunk_step max_args inflate png st")
  case (Continue st')
  from chunk_step_cursor [OF Continue] assms(2) have "\<not> cursor st' < int (length png)"
    by simp
  then have "chunk_loop max_args inflate png st' = Some (Continue st')"
    by (subst chunk_loop.simps) simp
  with Continue assms(1) show ?thesis
    by (subst chunk_loop.simps) simp
next
  case (Return st')
  with assms(1) show ?thesis by (subst chunk_loop.simps) simp
next
  case (Throw st')
  with assms(1) show ?thesis by (subst chunk_loop.simps) simp
qed

lemma last_turn_index:
  assumes "cursor st < int (length png)"
    and "int (length png) \<le> cursor st + (read32 png (cursor st) + 12)"
  shows "chunk_loop_index max_args inflate png st = Some (chunk_step_index max_args inflate png st)"
proof (cases "chunk_step_index max_args inflate png st")
  case (Continue st')
  from chunk_step_index_cursor [OF Continue] assms(2) have "\<not> cursor st' < int (length png)"
    by simp
  then have "chunk_loop_index max_args inflate png st' = Some (Continue st')"
    by (subst chunk_loop_index.simps) simp
  with Continue assms(1) show ?thesis
    by (subst chunk_loop_index.simps) simp
next
  case (Return st')
  with assms(1) show ?thesis by (subst chunk_loop_index.simps) simp
next
  case (Throw st')
  with assms(1) show ?thesis by (subst chunk_loop_index.simps) simp
qed

text \<open>
  Claim C4, as the code has it. \<open>decode\<close> has no check of a chunk's length against the
  buffer and no error for a truncated input, in either revision. When the walk stands at
  a chunk whose length field, read by \<open>read32\<close> as a signed 32-bit number, puts the
  next chunk at or past the end of the buffer, no further chunk is read: the walk ends
  with the turn taken for this chunk. If, moreover, \<open>reject\<close> has not been called, the
  chunk is neither the header nor the end chunk (nor, in the revision that rejects on a
  palette chunk, the palette chunk) and, for a data chunk, the payload cut out of the
  buffer has no more bytes than a call takes arguments, \<open>decode\<close> resolves with an
  image record. A length field of \<open>2^31\<close> or more is read as a negative number and
  need not put the next chunk past the end; nothing is said here of such a chunk.
\<close>

theorem truncated_chunk:
  assumes "cursor st < int (length png)"
    and "int (length png) \<le> cursor st + (read32 png (cursor st) + 12)"
  shows "chunk_loop max_args inflate png st = Some (chunk_step max_args inflate png st) \<and>
    chunk_loop_index max_args inflate png st = Some (chunk_step_index max_args inflate png st) \<and>
    (settled st = None \<longrightarrow> tag_at png (cursor st) \<noteq> IHDR \<longrightarrow> tag_at png (cursor st) \<noteq> IEND \<longrightarrow>
     (tag_at png (cursor st) = IDAT \<longrightarrow> int (length (payload_at png (cursor st))) \<le> max_args) \<longrightarrow>
     (\<exists>img. settle (chunk_step max_args inflate png st) = Resolved img)) \<and>
    (settled st = None \<longrightarrow> tag_at png (cursor st) \<noteq> IHDR \<longrightarrow> tag_at png (cursor st) \<noteq> PLTE \<longrightarrow>
     tag_at png (cursor st) \<noteq> IEND \<longrightarrow>
     (tag_at png (cursor st) = IDAT \<longrightarrow> int (length (payload_at png (cursor st))) \<le> max_args) \<longrightarrow>
     (\<exists>img. settle_index (chunk_step_index max_args inflate png st) = Resolved img))"
proof (intro conjI impI)
  show "chunk_loop max_args inflate png st = Some (chunk_step max_args inflate png st)"
    by (rule last_turn [OF assms])
  show "chunk_loop_index max_args inflate png st = Some (chunk_step_index max_args inflate png st)"
    by (rule last_turn_index [OF assms])
next
  assume "settled st = None" and "tag_at png (cursor st) \<noteq> IHDR"
    and "tag_at png (cursor st) \<noteq> IEND"
    and "tag_at png (cursor st) = IDAT \<longrightarrow> int (length (payload_at png (cursor st))) \<le> max_args"
  with chunk_step_unchecked [of png st max_args inflate]
  show "\<exists>img. settle (chunk_step max_args inflate png st) = Resolved img"
    by (auto simp add: respond_def)
next
  assume "settled st = None" and "tag_at png (cursor st) \<noteq> IHDR"
    and "tag_at png (cursor st) \<noteq> PLTE" and "tag_at png (cursor st) \<noteq> IEND"
    and "tag_at png (cursor st) = IDAT \<longrightarrow> int (length (payload_at png (cursor st))) \<le> max_args"
  with chunk_step_index_unchecked [of png st max_args inflate]
  show "\<exists>img. settle_index (chunk_step_index max_args inflate png st) = Resolved img"
    by (auto simp add: respond_index_def)
qed

text \<open>
  A data chunk that declares 100 bytes of payload in a buffer that holds three of them.
\<close>

theorem truncated_chunk_witness:
  "chunk_loop 65535 Some truncated_png initial_walker
     = Some (chunk_step 65535 Some truncated_png initial_walker) \<and>
   chunk_loop_index 65535 Some truncated_png initial_walker
     = Some (chunk_step_index 65535 Some truncated_png initial_walker) \<and>
   (\<exists>img. settle (chunk_step 65535 Some truncated_png initial_walker) = Resolved img) \<and>
   (\<exists>img. settle_index (chunk_step_index 65535 Some truncated_png initial_walker) = Resolved img)"
proof -
  have lt: "cursor initial_walker < int (length truncated_png)"
    by code_simp
  have le: "int (length truncated_png)
      \<le> cursor initial_walker + (read32 truncated_png (cursor initial_walker) + 12)"
    by code_simp
  have s: "settled initial_walker = None"
    by (simp add: initial_walker_def)
  have t: "tag_at truncated_png (cursor initial_walker) = IDAT"
    by code_simp
  have t1: "tag_at truncated_png (cursor initial_walker) \<noteq> IHDR"
    and t2: "tag_at truncated_png (cursor initial_walker) \<noteq> IEND"
    and t3: "tag_at truncated_png (cursor initial_walker) \<noteq> PLTE"
    unfolding t by (simp_all add: IDAT_def IHDR_def IEND_def PLTE_def)
  have p: "int (length (payload_at truncated_png (cursor initial_walker))) \<le> 65535"
    by code_simp
  from truncated_chunk [OF lt le, of 65535 Some] s t1 t2 t3 p show ?thesis
    by blast
qed

lemma chunk_loop_stuck:
  assumes lt: "cursor s < int (length png)"
    and stay: "chunk_step max_args inflate png s = Continue s"
  shows "chunk_loop max_args inflate png s = None"
proof (rule ccontr)
  assume "chunk_loop max_args inflate png s \<noteq> None"
  then obtain r where run: "chunk_loop max_args inflate png s = Some r" by auto
  define P where
    "P = (\<lambda>m i p s' (y :: step). \<not> (m = max_args \<and> i = inflate \<and> p = png \<and> s' = s))"
  have "P max_args inflate png s r"
  proof (rule chunk_loop.raw_induct [of P, OF _ run])
    fix loop :: "int \<Rightarrow> (u8 list \<Rightarrow> u8 list option) \<Rightarrow> u8 list \<Rightarrow> walker \<Rightarrow> step option"
      and m i p s' y
    assume IH: "\<And>m i p s' y. loop m i p s' = Some y \<Longrightarrow> P m i p s' y"
      and eq: "(if cursor s' < int (length p)
          then case chunk_step m i p s' of
                 Continue st' \<Rightarrow> loop m i p st'
               | Return st' \<Rightarrow> Some (Return st')
               | Throw st' \<Rightarrow> Some (Throw st')
          else Some (Continue s')) = Some y"
    show "P m i p s' y"
      unfolding P_def
    proof
      assume "m = max_args \<and> i = inflate \<and> p = png \<and> s' = s"
      with eq lt stay have "loop max_args inflate png s = Some y" by simp
      from IH [OF this] show False by (simp add: P_def)
    qed
  qed
  then show False by (simp add: P_def)
qed

lemma chunk_loop_index_stuck:
  assumes lt: "cursor s < int (length png)"
    and stay: "chunk_step_index max_args inflate png s = Continue s"
  shows "chunk_loop_index max_args inflate png s = None"
proof (rule ccontr)
  assume "chunk_loop_index max_args inflate png s \<noteq> None"
  then obtain r where run: "chunk_loop_index max_args inflate png s = Some r" by auto
  define P where
    "P = (\<lambda>m i p s' (y :: step). \<not> (m = max_args \<and> i = inflate \<and> p = png \<and> s' = s))"
  have "P max_args inflate png s r"
  proof (rule chunk_loop_index.raw_induct [of P, OF _ run])
    fix loop :: "int \<Rightarrow> (u8 list \<Rightarrow> u8 list option) \<Rightarrow> u8 list \<Rightarrow> walker \<Rightarrow> step option"
      and m i p s' y
    assume IH: "\<And>m i p s' y. loop m i p s' = Some y \<Longrightarrow> P m i p s' y"
      and eq: "(if cursor s' < int (length p)
          then case chunk_step_index m i p s' of
                 Continue st' \<Rightarrow> loop m i p st'
               | Return st' \<Rightarrow> Some (Return st')
               | Throw st' \<Rightarrow> Some (Throw st')
          else Some (Continue s')) = Some y"
    show "P m i p s' y"
      unfolding P_def
    proof
      assume "m = max_args \<and> i = inflate \<and> p = png \<and> s' = s"
      with eq lt stay have "loop max_args inflate png s = Some y" by simp
      from IH [OF this] show False by (simp add: P_def)
    qed
  qed
  then show False by (simp add: P_def)
qed

text \<open>
  The claim as it was stated fails on two buffers, in both revisions. On the data chunk
  that declares 100 bytes where three are present, \<open>decode\<close> resolves with an image
  record, all of whose fields are \<open>undefined\<close> and whose pixel sequence is empty. On
  a data chunk whose length field is \<open>FF FF FF F4\<close>, a declared length of 4294967284,
  \<open>read32\<close> reads \<open>-12\<close>, the cursor stays where it is, and the walk never ends.
\<close>

theorem truncated_chunk_counterexample:
  "\<forall>inflate.
     decode 65535 inflate (Some truncated_png) = Some (Resolved
       \<lparr>width = Undefined, height = Undefined, depth = Undefined, color = Undefined,
          channels = Undefined, data = []\<rparr>) \<and>
     decode_index 65535 inflate (Some truncated_png) = Some (Resolved
       \<lparr>width = Undefined, height = Undefined, depth = Undefined, color = Undefined,
          channels = Undefined, data = []\<rparr>) \<and>
     decode 65535 inflate (Some backward_png) = None \<and>
     decode_index 65535 inflate (Some backward_png) = None"
proof (intro allI conjI)
  fix inflate :: "u8 list \<Rightarrow> u8 list option"
  show "decode 65535 inflate (Some truncated_png) = Some (Resolved
       \<lparr>width = Undefined, height = Undefined, depth = Undefined, color = Undefined,
          channels = Undefined, data = []\<rparr>)"
    by code_simp
  show "decode_index 65535 inflate (Some truncated_png) = Some (Resolved
       \<lparr>width = Undefined, height = Undefined, depth = Undefined, color = Undefined,
          channels = Undefined, data = []\<rparr>)"
    by code_simp
  have lt: "cursor initial_walker < int (length backward_png)"
    by code_simp
  have sig: "subarray backward_png (Num 0) (Num 8) = signature"
    by code_simp
  have s: "chunk_step 65535 inflate backward_png initial_walker = Continue initial_walker"
    by code_simp
  have s': "chunk_step_index 65535 inflate backward_png initial_walker = Continue initial_walker"
    by code_simp
  show "decode 65535 inflate (Some backward_png) = None"
    using chunk_loop_stuck [OF lt s] by (simp add: decode_def sig)
  show "decode_index 65535 inflate (Some backward_png) = None"
    using chunk_loop_index_stuck [OF lt s'] by (simp add: decode_index_def sig)
qed

text \<open>
  Claim C6 against the code. For a header of color type 3 the code calls \<open>reject\<close>
  with the palette error but, unlike the branches beside it, does not return: the walk
  goes on to the next chunk. Here the next chunk has the length field \<open>FF FF FF F4\<close>,
  which \<open>read32\<close> reads as \<open>-12\<close>, so the cursor stays where it is, the walk never
  ends, and \<open>decode\<close> never delivers the rejection.
\<close>

theorem palette_walk_goes_on:
  "\<forall>max_args inflate.
     chunk_step max_args inflate palette_png initial_walker = Continue after_palette_header \<and>
     chunk_step max_args inflate palette_png after_palette_header = Continue after_palette_header \<and>
     decode max_args inflate (Some palette_png) = None"
proof (intro allI conjI)
  fix max_args :: int and inflate :: "u8 list \<Rightarrow> u8 list option"
  show s1: "chunk_step max_args inflate palette_png initial_walker = Continue after_palette_header"
    by code_simp
  show s2: "chunk_step max_args inflate palette_png after_palette_header
      = Continue after_palette_header"
    by code_simp
  have lt: "cursor after_palette_header < int (length palette_png)"
    by code_simp
  have lt0: "cursor initial_walker < int (length palette_png)"
    by code_simp
  have sig: "subarray palette_png (Num 0) (Num 8) = signature"
    by code_simp
  have "chunk_loop max_args inflate palette_png initial_walker
      = chunk_loop max_args inflate palette_png after_palette_header"
    using lt0 s1 by (subst chunk_loop.simps) simp
  also have "\<dots> = None"
    by (rule chunk_loop_stuck [OF lt s2])
  finally show "decode max_args inflate (Some palette_png) = None"
    by (simp add: decode_def sig)
qed

end
